theory Spec2Isabelle
  imports Complex_Main "HOL-Library.Word" "HOL-Library.Char_ord" "HOL-Library.List_Lexorder"
    "HOL-Library.Product_Lexorder" "HOL-Library.Sublist" "HOL-Library.Multiset"
    "HOL-Library.AList"
begin

unbundle bit_operations_syntax

section \<open>Python floats: IEEE-754 binary64\<close>

text \<open>
  A Python \<open>float\<close> is a C \<open>double\<close>: 1 sign bit, 11 exponent bits, 52 fraction bits.
  The arithmetic of \<open>main.py\<close> (\<open>*\<close>, \<open>-\<close>, \<open>+\<close>, \<open>/\<close>, unary \<open>-\<close>, \<open>round(x, 2)\<close>) is
  modelled on the bit pattern: an operation computes the exact rational result and rounds
  it to the nearest double, ties to the even significand, overflowing to infinity.
\<close>

type_synonym double = "64 word"

text \<open>The sign is the top bit; the magnitude is the other 63 bits, the exponent field
  above the 52 fraction bits. The magnitude with exponent field 2047 and fraction 0 is
  infinity, every magnitude above it is a NaN, every one below is a finite number.\<close>

definition d_sign :: "double \<Rightarrow> bool" where
  "d_sign w = (2 ^ 63 \<le> uint w)"

definition d_mag :: "double \<Rightarrow> int" where
  "d_mag w = uint w mod 2 ^ 63"

definition inf_mag :: int where
  "inf_mag = 2047 * 2 ^ 52"

definition d_is_nan :: "double \<Rightarrow> bool" where
  "d_is_nan w = (inf_mag < d_mag w)"

definition d_is_inf :: "double \<Rightarrow> bool" where
  "d_is_inf w = (d_mag w = inf_mag)"

definition d_is_finite :: "double \<Rightarrow> bool" where
  "d_is_finite w = (d_mag w < inf_mag)"

definition d_is_zero :: "double \<Rightarrow> bool" where
  "d_is_zero w = (d_mag w = 0)"

text \<open>The double with a given sign and magnitude.\<close>

definition d_make :: "bool \<Rightarrow> int \<Rightarrow> double" where
  "d_make s m = (if s then of_int (2 ^ 63 + m) else of_int m)"

definition d_nan :: double where
  "d_nan = d_make False (inf_mag + 2 ^ 51)"

definition d_inf :: "bool \<Rightarrow> double" where
  "d_inf s = d_make s inf_mag"

definition d_zero :: "bool \<Rightarrow> double" where
  "d_zero s = d_make s 0"

text \<open>\<open>2\<close> to an integer power, as a rational.\<close>

definition pow2 :: "int \<Rightarrow> rat" where
  "pow2 k = (if 0 \<le> k then 2 ^ nat k else 1 / 2 ^ nat (- k))"

text \<open>The value of a magnitude (the low 63 bits) below infinity: subnormal when the
  exponent field is 0, else with the implicit leading bit.\<close>

definition mag_val :: "int \<Rightarrow> rat" where
  "mag_val m =
     (if m div 2 ^ 52 = 0 then of_int m * pow2 (- 1074)
      else of_int (2 ^ 52 + m mod 2 ^ 52) * pow2 (m div 2 ^ 52 - 1075))"

definition d_val :: "double \<Rightarrow> rat" where
  "d_val w = (if d_sign w then - mag_val (d_mag w) else mag_val (d_mag w))"

text \<open>Rounding a rational to the nearest integer, ties to even.\<close>

definition round_half_even :: "rat \<Rightarrow> int" where
  "round_half_even r =
     (let f = \<lfloor>r\<rfloor>; d = r - of_int f
      in if d < 1 / 2 then f else if 1 / 2 < d then f + 1
         else if even f then f else f + 1)"

text \<open>The number of binary digits of a positive integer.\<close>

function bit_length :: "int \<Rightarrow> int" where
  "bit_length n = (if n \<le> 0 then 0 else 1 + bit_length (n div 2))"
  by pat_completeness auto
termination
  by (relation "measure nat") auto

declare bit_length.simps [simp del]

text \<open>\<open>ilog2 r\<close> is \<open>\<lfloor>log\<^sub>2 r\<rfloor>\<close> for a positive rational \<open>r\<close>.\<close>

definition ilog2 :: "rat \<Rightarrow> int" where
  "ilog2 r =
     (let (p, q) = quotient_of r;
          d = bit_length p - bit_length q
      in if pow2 d \<le> r then d else d - 1)"

text \<open>The magnitude bits of the double nearest to a rational \<open>r \<ge> 0\<close>. With \<open>e\<close> the
  exponent (at least that of the subnormals) and \<open>n\<close> the significand rounded to 53 bits,
  the encoding is \<open>(e + 1022) * 2^52 + n\<close>: a subnormal has \<open>n < 2^52\<close> and the exponent
  field 0, a normal number carries its leading bit into the exponent field, and a
  significand rounded up to \<open>2^53\<close> carries once more. Beyond the largest double the
  result is infinity.\<close>

definition mag_of_rat :: "rat \<Rightarrow> int" where
  "mag_of_rat r =
     (if r \<le> 0 then 0
      else let e = max (ilog2 r) (- 1022);
               n = round_half_even (r / pow2 (e - 52))
           in min inf_mag ((e + 1022) * 2 ^ 52 + n))"

text \<open>The double nearest to a rational; an exact zero takes the sign the operation
  gives it, a non-zero value that rounds to zero keeps its own.\<close>

definition d_of_rat :: "bool \<Rightarrow> rat \<Rightarrow> double" where
  "d_of_rat zero_sign r =
     (if r = 0 then d_zero zero_sign else d_make (r < 0) (mag_of_rat \<bar>r\<bar>))"

text \<open>The largest finite double, \<open>(2^53 - 1) * 2^971\<close>.\<close>

definition max_double :: rat where
  "max_double = (2 ^ 53 - 1) * pow2 971"

text \<open>The operations: NaN and the infinities by case, finite operands through the exact
  result. A sum that is exactly zero is \<open>-0\<close> only when both operands are negative.\<close>

definition d_neg :: "double \<Rightarrow> double" where
  "d_neg x = d_make (\<not> d_sign x) (d_mag x)"

definition d_add :: "double \<Rightarrow> double \<Rightarrow> double" where
  "d_add x y =
     (if d_is_nan x \<or> d_is_nan y then d_nan
      else if d_is_inf x then (if d_is_inf y \<and> d_sign x \<noteq> d_sign y then d_nan else x)
      else if d_is_inf y then y
      else d_of_rat (d_sign x \<and> d_sign y) (d_val x + d_val y))"

definition d_sub :: "double \<Rightarrow> double \<Rightarrow> double" where
  "d_sub x y = d_add x (d_neg y)"

definition d_mul :: "double \<Rightarrow> double \<Rightarrow> double" where
  "d_mul x y =
     (if d_is_nan x \<or> d_is_nan y then d_nan
      else if d_is_inf x \<or> d_is_inf y then
        (if d_is_zero x \<or> d_is_zero y then d_nan else d_inf (d_sign x \<noteq> d_sign y))
      else d_of_rat (d_sign x \<noteq> d_sign y) (d_val x * d_val y))"

text \<open>Division by a non-zero double (Python raises \<open>ZeroDivisionError\<close> before dividing
  by zero; see \<open>py_truediv\<close>).\<close>

definition d_div :: "double \<Rightarrow> double \<Rightarrow> double" where
  "d_div x y =
     (if d_is_nan x \<or> d_is_nan y then d_nan
      else if d_is_inf x then (if d_is_inf y then d_nan else d_inf (d_sign x \<noteq> d_sign y))
      else if d_is_inf y then d_zero (d_sign x \<noteq> d_sign y)
      else d_of_rat (d_sign x \<noteq> d_sign y) (d_val x / d_val y))"


section \<open>Python values and exceptions\<close>

text \<open>The exceptions \<open>main.py\<close> can meet. \<open>RequestException\<close> stands for the whole
  hierarchy of \<open>requests.exceptions\<close> (connection errors, \<open>HTTPError\<close> from
  \<open>raise_for_status\<close>, the JSON decoding error of \<open>response.json()\<close>, a header or a
  body that \<open>requests\<close> refuses to send).\<close>

datatype exn =
    KeyError string
  | TypeError
  | OverflowError
  | ValueError
  | ZeroDivisionError
  | AttributeError
  | OSError
  | UnicodeDecodeError
  | RecursionError
  | RequestException

text \<open>What \<open>json.load\<close> returns: \<open>None\<close>, \<open>bool\<close>, unbounded \<open>int\<close>, \<open>float\<close>, \<open>str\<close>,
  \<open>list\<close>, and \<open>dict\<close> with string keys in insertion order.\<close>

datatype pyval =
    PNone
  | PBool bool
  | PInt int
  | PFloat double
  | PStr string
  | PList "pyval list"
  | PDict "(string \<times> pyval) list"

definition seq :: "exn + 'a \<Rightarrow> ('a \<Rightarrow> exn + 'b) \<Rightarrow> exn + 'b" where
  "seq m f = (case m of Inl e \<Rightarrow> Inl e | Inr v \<Rightarrow> f v)"

text \<open>Numbers: \<open>bool\<close> is a subclass of \<open>int\<close> and counts as 0 or 1 in arithmetic.\<close>

datatype pynum = NInt int | NFloat double

fun as_num :: "pyval \<Rightarrow> pynum option" where
  "as_num (PBool b) = Some (NInt (if b then 1 else 0))"
| "as_num (PInt i) = Some (NInt i)"
| "as_num (PFloat x) = Some (NFloat x)"
| "as_num _ = None"

text \<open>\<open>int\<close> to \<open>float\<close>: correctly rounded, \<open>OverflowError\<close> beyond the largest double.\<close>

definition float_of_int :: "int \<Rightarrow> exn + double" where
  "float_of_int i =
     (let d = d_of_rat False (of_int i) in if d_is_inf d then Inl OverflowError else Inr d)"

fun to_double :: "pynum \<Rightarrow> exn + double" where
  "to_double (NInt i) = float_of_int i"
| "to_double (NFloat x) = Inr x"

fun num_mul :: "pynum \<Rightarrow> pynum \<Rightarrow> exn + pyval" where
  "num_mul (NInt a) (NInt b) = Inr (PInt (a * b))"
| "num_mul a b = seq (to_double a) (\<lambda>x. seq (to_double b) (\<lambda>y. Inr (PFloat (d_mul x y))))"

fun num_sub :: "pynum \<Rightarrow> pynum \<Rightarrow> exn + pyval" where
  "num_sub (NInt a) (NInt b) = Inr (PInt (a - b))"
| "num_sub a b = seq (to_double a) (\<lambda>x. seq (to_double b) (\<lambda>y. Inr (PFloat (d_sub x y))))"

fun num_add :: "pynum \<Rightarrow> pynum \<Rightarrow> exn + pyval" where
  "num_add (NInt a) (NInt b) = Inr (PInt (a + b))"
| "num_add a b = seq (to_double a) (\<lambda>x. seq (to_double b) (\<lambda>y. Inr (PFloat (d_add x y))))"

text \<open>True division: \<open>int / int\<close> is the correctly rounded quotient.\<close>

fun num_truediv :: "pynum \<Rightarrow> pynum \<Rightarrow> exn + pyval" where
  "num_truediv (NInt a) (NInt b) =
     (if b = 0 then Inl ZeroDivisionError
      else let d = d_of_rat ((a < 0) \<noteq> (b < 0)) (of_int a / of_int b)
           in if d_is_inf d then Inl OverflowError else Inr (PFloat d))"
| "num_truediv a b =
     seq (to_double a) (\<lambda>x. seq (to_double b) (\<lambda>y.
       if d_is_zero y then Inl ZeroDivisionError else Inr (PFloat (d_div x y))))"

text \<open>The binary operators. \<open>*\<close> also repeats a \<open>str\<close> or a \<open>list\<close> an \<open>int\<close> number
  of times, \<open>+\<close> also concatenates; every other combination is a \<open>TypeError\<close>.\<close>

fun repeat_count :: "pyval \<Rightarrow> nat option" where
  "repeat_count (PInt n) = Some (nat n)"
| "repeat_count (PBool b) = Some (if b then 1 else 0)"
| "repeat_count _ = None"

definition py_mul :: "pyval \<Rightarrow> pyval \<Rightarrow> exn + pyval" where
  "py_mul a b =
     (case (as_num a, as_num b) of
        (Some x, Some y) \<Rightarrow> num_mul x y
      | _ \<Rightarrow>
        (case (a, repeat_count b) of
           (PStr s, Some n) \<Rightarrow> Inr (PStr (concat (replicate n s)))
         | (PList xs, Some n) \<Rightarrow> Inr (PList (concat (replicate n xs)))
         | _ \<Rightarrow>
           (case (repeat_count a, b) of
              (Some n, PStr s) \<Rightarrow> Inr (PStr (concat (replicate n s)))
            | (Some n, PList xs) \<Rightarrow> Inr (PList (concat (replicate n xs)))
            | _ \<Rightarrow> Inl TypeError)))"

definition py_sub :: "pyval \<Rightarrow> pyval \<Rightarrow> exn + pyval" where
  "py_sub a b =
     (case (as_num a, as_num b) of
        (Some x, Some y) \<Rightarrow> num_sub x y
      | _ \<Rightarrow> Inl TypeError)"

definition py_add :: "pyval \<Rightarrow> pyval \<Rightarrow> exn + pyval" where
  "py_add a b =
     (case (as_num a, as_num b) of
        (Some x, Some y) \<Rightarrow> num_add x y
      | _ \<Rightarrow>
        (case (a, b) of
           (PStr s, PStr t) \<Rightarrow> Inr (PStr (s @ t))
         | (PList xs, PList ys) \<Rightarrow> Inr (PList (xs @ ys))
         | _ \<Rightarrow> Inl TypeError))"

definition py_truediv :: "pyval \<Rightarrow> pyval \<Rightarrow> exn + pyval" where
  "py_truediv a b =
     (case (as_num a, as_num b) of
        (Some x, Some y) \<Rightarrow> num_truediv x y
      | _ \<Rightarrow> Inl TypeError)"

text \<open>Unary minus.\<close>

definition py_neg :: "pyval \<Rightarrow> exn + pyval" where
  "py_neg a =
     (case as_num a of
        Some (NInt i) \<Rightarrow> Inr (PInt (- i))
      | Some (NFloat x) \<Rightarrow> Inr (PFloat (d_neg x))
      | None \<Rightarrow> Inl TypeError)"

text \<open>\<open>math.sin\<close>. The argument is converted to a double; the C library's \<open>sin\<close> is not
  part of the repository and is the parameter \<open>libm_sin\<close>. CPython's wrapper turns a NaN
  result for a non-NaN argument, and an infinite result for a finite argument, into
  \<open>ValueError\<close> (so \<open>math.sin(inf)\<close> raises when the library returns NaN there).\<close>

definition math_sin :: "(double \<Rightarrow> double) \<Rightarrow> pyval \<Rightarrow> exn + pyval" where
  "math_sin libm_sin a =
     (case as_num a of
        None \<Rightarrow> Inl TypeError
      | Some n \<Rightarrow>
          seq (to_double n) (\<lambda>x.
            let r = libm_sin x
            in if d_is_nan r \<and> \<not> d_is_nan x then Inl ValueError
               else if d_is_inf r \<and> d_is_finite x then Inl ValueError
               else Inr (PFloat r)))"

text \<open>\<open>round(x, 2)\<close>. A float that is infinite or NaN rounds to itself; a finite one is
  printed with two correctly rounded decimals (ties on the exact binary value go to the
  even digit) and read back as the nearest double, keeping the sign. An \<open>int\<close> is
  returned as it is.\<close>

definition float_round2 :: "double \<Rightarrow> exn + double" where
  "float_round2 x =
     (if \<not> d_is_finite x then Inr x
      else let q = of_int (round_half_even (mag_val (d_mag x) * 100)) / 100;
               r = d_make (d_sign x) (mag_of_rat q)
           in if d_is_inf r then Inl OverflowError else Inr r)"

definition py_round2 :: "pyval \<Rightarrow> exn + pyval" where
  "py_round2 a =
     (case as_num a of
        Some (NInt i) \<Rightarrow> Inr (PInt i)
      | Some (NFloat x) \<Rightarrow> seq (float_round2 x) (\<lambda>r. Inr (PFloat r))
      | None \<Rightarrow> Inl TypeError)"

text \<open>Subscription \<open>entry[key]\<close> with a string key: a \<open>dict\<close> looks the key up, every
  other type raises \<open>TypeError\<close>. Assignment \<open>entry[key] = v\<close> on a \<open>dict\<close> replaces the
  value of an existing key in place and appends a new key at the end.\<close>

fun py_getitem :: "pyval \<Rightarrow> string \<Rightarrow> exn + pyval" where
  "py_getitem (PDict kvs) k =
     (case map_of kvs k of None \<Rightarrow> Inl (KeyError k) | Some v \<Rightarrow> Inr v)"
| "py_getitem _ k = Inl TypeError"

fun py_setitem :: "pyval \<Rightarrow> string \<Rightarrow> pyval \<Rightarrow> exn + pyval" where
  "py_setitem (PDict kvs) k v = Inr (PDict (AList.update k v kvs))"
| "py_setitem _ k v = Inl TypeError"

text \<open>Truth value, as \<open>if not x\<close> tests it.\<close>

fun py_truthy :: "pyval \<Rightarrow> bool" where
  "py_truthy PNone = False"
| "py_truthy (PBool b) = b"
| "py_truthy (PInt i) = (i \<noteq> 0)"
| "py_truthy (PFloat x) = (\<not> d_is_zero x)"
| "py_truthy (PStr s) = (s \<noteq> [])"
| "py_truthy (PList xs) = (xs \<noteq> [])"
| "py_truthy (PDict kvs) = (kvs \<noteq> [])"

text \<open>Iteration \<open>for entry in x\<close>: the elements of a list, the keys of a dict, the
  characters of a string; anything else is not iterable.\<close>

fun py_iter :: "pyval \<Rightarrow> exn + pyval list" where
  "py_iter (PList xs) = Inr xs"
| "py_iter (PDict kvs) = Inr (map (\<lambda>k. PStr k) (map fst kvs))"
| "py_iter (PStr s) = Inr (map (\<lambda>c. PStr [c]) s)"
| "py_iter _ = Inl TypeError"


section \<open>Comparison and sorting\<close>

text \<open>Numbers compare by exact value, an \<open>int\<close> with a \<open>float\<close> too; a NaN is neither
  equal to nor less than anything. \<open>num_ord\<close> places a number that is not NaN on the
  extended rational line: \<open>(-1, 0)\<close> is minus infinity, \<open>(0, r)\<close> the rational \<open>r\<close>, and
  \<open>(1, 0)\<close> plus infinity, ordered lexicographically.\<close>

fun num_is_nan :: "pynum \<Rightarrow> bool" where
  "num_is_nan (NInt i) = False"
| "num_is_nan (NFloat x) = d_is_nan x"

fun num_ord :: "pynum \<Rightarrow> int \<times> rat" where
  "num_ord (NInt i) = (0, of_int i)"
| "num_ord (NFloat x) =
     (if d_is_inf x then (if d_sign x then - 1 else 1, 0) else (0, d_val x))"

definition num_eq :: "pynum \<Rightarrow> pynum \<Rightarrow> bool" where
  "num_eq a b = (\<not> num_is_nan a \<and> \<not> num_is_nan b \<and> num_ord a = num_ord b)"

definition num_lt :: "pynum \<Rightarrow> pynum \<Rightarrow> bool" where
  "num_lt a b = (\<not> num_is_nan a \<and> \<not> num_is_nan b \<and> num_ord a < num_ord b)"

text \<open>\<open>==\<close> never raises: two lists are equal elementwise, two dicts when they have the
  same keys with equal values, values of unrelated types are unequal.\<close>

fun py_eq :: "pyval \<Rightarrow> pyval \<Rightarrow> bool" where
  "py_eq (PList xs) (PList ys) = list_all2 py_eq xs ys"
| "py_eq (PDict a) (PDict b) =
     (set (map fst b) \<subseteq> set (map fst a) \<and>
      list_all (\<lambda>(k, v). map_of a k = Some v \<longrightarrow>
        (case map_of b k of None \<Rightarrow> False | Some w \<Rightarrow> py_eq v w)) a)"
| "py_eq a b =
     (case (as_num a, as_num b) of
        (Some x, Some y) \<Rightarrow> num_eq x y
      | (None, None) \<Rightarrow> a = b
      | _ \<Rightarrow> False)"

text \<open>\<open><\<close> is defined between numbers, between strings (by code point, a proper prefix
  first) and between lists; a list or tuple comparison looks for the first position
  where the elements are not \<open>==\<close> and compares there. Everything else is a
  \<open>TypeError\<close>. CPython takes two elements that are one and the same object for equal
  without asking \<open>==\<close>; values here have no identity, which makes a difference for a
  NaN only, when one NaN object stands at the same position of both tuples. In the key
  of the sort below the first two components are fresh objects (the results of a
  negation), so this can only be the third, \<open>distance_from_me\<close>, of two records that hold
  the constant the JSON reader has for the literal \<open>NaN\<close>.\<close>

fun py_lt :: "pyval \<Rightarrow> pyval \<Rightarrow> exn + bool"
  and seq_lt :: "pyval list \<Rightarrow> pyval list \<Rightarrow> exn + bool" where
  "py_lt (PList xs) (PList ys) = seq_lt xs ys"
| "py_lt (PStr s) (PStr t) = Inr (s < t)"
| "py_lt a b =
     (case (as_num a, as_num b) of
        (Some x, Some y) \<Rightarrow> Inr (num_lt x y)
      | _ \<Rightarrow> Inl TypeError)"
| "seq_lt [] [] = Inr False"
| "seq_lt [] (y # ys) = Inr True"
| "seq_lt (x # xs) [] = Inr False"
| "seq_lt (x # xs) (y # ys) = (if py_eq x y then seq_lt xs ys else py_lt x y)"

text \<open>\<open>sorted(xs, key=f)\<close>: \<open>f\<close> is called once on every element, in order, before any
  comparison; the first exception ends the call. The elements are then ordered by \<open><\<close>
  on their keys alone, each key carrying its element along.\<close>

fun map_exn :: "('a \<Rightarrow> exn + 'b) \<Rightarrow> 'a list \<Rightarrow> exn + 'b list" where
  "map_exn f [] = Inr []"
| "map_exn f (x # xs) = seq (f x) (\<lambda>y. seq (map_exn f xs) (\<lambda>ys. Inr (y # ys)))"

type_synonym keyed = "pyval list \<times> pyval"

text \<open>The order itself is CPython's \<open>list.sort\<close> (\<open>listobject.c\<close>, version 3.11) as it
  runs on a list of fewer than 64 elements. \<open>count_run\<close> measures the run the list begins
  with: if the second key is less than the first, the longest prefix in which every key
  is less than the one before it, and that prefix is reversed in place; otherwise the
  longest prefix in which no key is less than the one before it.\<close>

fun run_ascending :: "keyed \<Rightarrow> keyed list \<Rightarrow> exn + nat" where
  "run_ascending prev [] = Inr 0"
| "run_ascending prev (q # qs) =
     seq (seq_lt (fst q) (fst prev)) (\<lambda>less.
       if less then Inr 0 else seq (run_ascending q qs) (\<lambda>n. Inr (Suc n)))"

fun run_descending :: "keyed \<Rightarrow> keyed list \<Rightarrow> exn + nat" where
  "run_descending prev [] = Inr 0"
| "run_descending prev (q # qs) =
     seq (seq_lt (fst q) (fst prev)) (\<lambda>less.
       if less then seq (run_descending q qs) (\<lambda>n. Inr (Suc n)) else Inr 0)"

fun count_run :: "keyed list \<Rightarrow> exn + nat \<times> bool" where
  "count_run [] = Inr (0, False)"
| "count_run [p] = Inr (1, False)"
| "count_run (p # q # rest) =
     seq (seq_lt (fst q) (fst p)) (\<lambda>less.
       if less then seq (run_descending q rest) (\<lambda>n. Inr (n + 2, True))
       else seq (run_ascending q rest) (\<lambda>n. Inr (n + 2, False)))"

text \<open>\<open>binarysort\<close> then inserts every remaining element into the part before it. The
  place is found by bisection: between \<open>l\<close> and \<open>r\<close> the pivot is compared with the
  element at \<open>l + ((r - l) >> 1)\<close> and goes left of it if it is less, right of it
  otherwise.\<close>

function bisect :: "keyed \<Rightarrow> keyed list \<Rightarrow> nat \<Rightarrow> nat \<Rightarrow> exn + nat" where
  "bisect pivot a l r =
     (if l < r then
        (let p = l + (r - l) div 2
         in seq (seq_lt (fst pivot) (fst (a ! p))) (\<lambda>less.
              if less then bisect pivot a l p else bisect pivot a (p + 1) r))
      else Inr l)"
  by pat_completeness auto
termination
  by (relation "measure (\<lambda>(pivot, a, l, r). r - l)") auto

declare bisect.simps [simp del]

definition binary_insert :: "keyed \<Rightarrow> keyed list \<Rightarrow> exn + keyed list" where
  "binary_insert pivot a =
     seq (bisect pivot a 0 (length a)) (\<lambda>l. Inr (take l a @ pivot # drop l a))"

fun binarysort :: "keyed list \<Rightarrow> keyed list \<Rightarrow> exn + keyed list" where
  "binarysort a [] = Inr a"
| "binarysort a (pivot # rest) = seq (binary_insert pivot a) (\<lambda>a'. binarysort a' rest)"

text \<open>A list of 64 elements or more is cut into several runs that CPython merges; the
  model sorts it like a short one. The two agree whenever \<open><\<close> orders the keys as a
  linear order does, since a list has one stable sorted rearrangement only; they may
  differ on a long list with a NaN among its keys.\<close>

definition list_sort :: "keyed list \<Rightarrow> exn + keyed list" where
  "list_sort ps =
     (if length ps < 2 then Inr ps
      else seq (count_run ps) (\<lambda>(n, descending).
             binarysort (if descending then rev (take n ps) else take n ps) (drop n ps)))"

definition py_sorted :: "(pyval \<Rightarrow> exn + pyval list) \<Rightarrow> pyval list \<Rightarrow> exn + pyval list" where
  "py_sorted key xs =
     seq (map_exn (\<lambda>x. seq (key x) (\<lambda>k. Inr (k, x))) xs) (\<lambda>ps.
     seq (list_sort ps) (\<lambda>qs. Inr (map snd qs)))"

section \<open>The program\<close>

definition API_URL :: string where
  "API_URL = ''https://u8whitimu7.execute-api.ap-southeast-1.amazonaws.com/prod''"

definition REGISTER_ENDPOINT :: string where
  "REGISTER_ENDPOINT = ''/register''"

definition CHECK_TOPK_ENDPOINT :: string where
  "CHECK_TOPK_ENDPOINT = ''/test/check-topk-sort''"

definition OUTPUT_FILE :: string where
  "OUTPUT_FILE = ''top_results.json''"

text \<open>What the program does to the outside, in order: the lines it prints, the file it
  writes, and the two HTTP requests.\<close>

datatype message =
    FetchingToken | TokenReceived | TokenNotFound | TokenFetchError
  | InputNotFound | InputDecodeError | NoData
  | MissingField string pyval | TypeErrorInEntry pyval
  | ResultsSaved | WriteError
  | TokenFetchFailed | Submitting | SubmissionSuccessful | ServerResponse | SubmitError

datatype event =
    Print message
  | WriteFile string pyval
  | HttpGet string
  | HttpPost string pyval pyval

text \<open>What the outside answers. \<open>open(input_file, 'r')\<close> followed by \<open>json.load\<close> ends in
  one of six ways, named here by what the two calls do:
  \<^item> \<open>NotFound\<close>: there is no such file, \<open>open\<close> raises \<open>FileNotFoundError\<close>;
  \<^item> \<open>Unreadable\<close>: \<open>open\<close> or the read raises another \<open>OSError\<close> (a directory, no
    permission);
  \<^item> \<open>Undecodable\<close>: the bytes of the file are no text in the encoding the file was
    opened with, the read inside \<open>json.load\<close> raises \<open>UnicodeDecodeError\<close>;
  \<^item> \<open>Malformed\<close>: the text is read and the parser rejects it with \<open>JSONDecodeError\<close>;
  \<^item> \<open>TooDeep\<close>: the text nests arrays or objects deeper than the interpreter's
    recursion limit, the parser raises \<open>RecursionError\<close> before it has seen whether the
    text is well formed;
  \<^item> \<open>Loaded v\<close>: the parser returns the value \<open>v\<close>.

  An HTTP request raises inside \<open>requests\<close> or returns a status code and a body (\<open>None\<close>
  when the body is not JSON).\<close>

datatype file_read = NotFound | Unreadable | Undecodable | Malformed | TooDeep | Loaded pyval

datatype http_reply = NoReply | Reply nat "pyval option"

text \<open>One run's surroundings: what reading \<open>validated_dataset.json\<close> yields, whether
  \<open>top_results.json\<close> can be written, and the replies to the GET and to the POST.\<close>

record env =
  input_file :: file_read
  output_writable :: bool
  register_reply :: http_reply
  submit_reply :: http_reply

text \<open>The literal \<open>0.5\<close>.\<close>

definition d_half :: double where
  "d_half = 0x3FE0000000000000"

subsection \<open>\<open>calculate_score\<close>\<close>

text \<open>The three subscriptions, then the expression in Python's order of evaluation
  (\<open>rating * 10\<close>, \<open>distance * 0.5\<close>, the difference, \<open>math.sin(id_)\<close>, \<open>* 2\<close>, the
  sum, \<open>* 100\<close>, \<open>+ 0.5\<close>), then \<open>round(score / 100, 2)\<close>. The first exception ends
  the call.\<close>

definition calculate_score :: "(double \<Rightarrow> double) \<Rightarrow> pyval \<Rightarrow> exn + pyval" where
  "calculate_score libm_sin entry =
     seq (py_getitem entry ''rating'') (\<lambda>rating.
     seq (py_getitem entry ''distance_from_me'') (\<lambda>distance.
     seq (py_getitem entry ''id'') (\<lambda>ident.
     seq (py_mul rating (PInt 10)) (\<lambda>t1.
     seq (py_mul distance (PFloat d_half)) (\<lambda>t2.
     seq (py_sub t1 t2) (\<lambda>t3.
     seq (math_sin libm_sin ident) (\<lambda>t4.
     seq (py_mul t4 (PInt 2)) (\<lambda>t5.
     seq (py_add t3 t5) (\<lambda>t6.
     seq (py_mul t6 (PInt 100)) (\<lambda>t7.
     seq (py_add t7 (PFloat d_half)) (\<lambda>score.
     seq (py_truediv score (PInt 100)) (\<lambda>t8.
     py_round2 t8))))))))))))"

text \<open>The value of \<open>score / 100\<close> in the last statement, before \<open>round\<close> is applied
  to it: the same steps of \<open>calculate_score\<close> without the last one.\<close>

definition score_quotient :: "(double \<Rightarrow> double) \<Rightarrow> pyval \<Rightarrow> exn + pyval" where
  "score_quotient libm_sin entry =
     seq (py_getitem entry ''rating'') (\<lambda>rating.
     seq (py_getitem entry ''distance_from_me'') (\<lambda>distance.
     seq (py_getitem entry ''id'') (\<lambda>ident.
     seq (py_mul rating (PInt 10)) (\<lambda>t1.
     seq (py_mul distance (PFloat d_half)) (\<lambda>t2.
     seq (py_sub t1 t2) (\<lambda>t3.
     seq (math_sin libm_sin ident) (\<lambda>t4.
     seq (py_mul t4 (PInt 2)) (\<lambda>t5.
     seq (py_add t3 t5) (\<lambda>t6.
     seq (py_mul t6 (PInt 100)) (\<lambda>t7.
     seq (py_add t7 (PFloat d_half)) (\<lambda>score.
     py_truediv score (PInt 100))))))))))))"

subsection \<open>\<open>load_validated_data\<close>\<close>

text \<open>The two \<open>except\<close> clauses name \<open>FileNotFoundError\<close> and \<open>json.JSONDecodeError\<close>:
  these two are caught and give \<open>[]\<close>. Every other exception of the \<open>try\<close> block
  propagates: \<open>UnicodeDecodeError\<close> and \<open>RecursionError\<close> are no subclasses of
  \<open>JSONDecodeError\<close>, and no other \<open>OSError\<close> is a \<open>FileNotFoundError\<close>. A dict with a
  key \<open>data\<close> is replaced by the value under it.\<close>

fun load_validated_data :: "file_read \<Rightarrow> event list \<times> (exn + pyval)" where
  "load_validated_data NotFound = ([Print InputNotFound], Inr (PList []))"
| "load_validated_data Malformed = ([Print InputDecodeError], Inr (PList []))"
| "load_validated_data Unreadable = ([], Inl OSError)"
| "load_validated_data Undecodable = ([], Inl UnicodeDecodeError)"
| "load_validated_data TooDeep = ([], Inl RecursionError)"
| "load_validated_data (Loaded data) =
     ([], Inr (case data of
                 PDict kvs \<Rightarrow> (case map_of kvs ''data'' of Some v \<Rightarrow> v | None \<Rightarrow> data)
               | _ \<Rightarrow> data))"

subsection \<open>\<open>write_output_file\<close>\<close>

text \<open>An \<open>IOError\<close> is caught and reported; the function never raises.\<close>

definition write_output_file :: "bool \<Rightarrow> pyval \<Rightarrow> string \<Rightarrow> event list" where
  "write_output_file writable output_data output_file =
     (if writable then [WriteFile output_file output_data, Print ResultsSaved]
      else [Print WriteError])"

subsection \<open>\<open>get_authorization_token\<close>\<close>

text \<open>\<open>x.get(key, default)\<close>: only a dict has the method.\<close>

fun py_get :: "pyval \<Rightarrow> string \<Rightarrow> pyval \<Rightarrow> exn + pyval" where
  "py_get (PDict kvs) k dflt = Inr (case map_of kvs k of Some v \<Rightarrow> v | None \<Rightarrow> dflt)"
| "py_get _ k dflt = Inl AttributeError"

text \<open>\<open>raise_for_status\<close> raises for the 4xx and 5xx status codes. Every exception of
  \<open>requests\<close> (no connection, an error status, a body that \<open>response.json()\<close> cannot
  decode) is a \<open>RequestException\<close>, caught and answered with \<open>None\<close>; an
  \<open>AttributeError\<close> from \<open>.get\<close> on a value that is not a dict is not caught.\<close>

definition error_status :: "nat \<Rightarrow> bool" where
  "error_status code = (400 \<le> code \<and> code < 600)"

definition get_authorization_token :: "http_reply \<Rightarrow> string \<Rightarrow> event list \<times> (exn + pyval)" where
  "get_authorization_token reply api_url =
     (let register_endpoint = api_url @ REGISTER_ENDPOINT;
          start = [Print FetchingToken, HttpGet register_endpoint]
      in case reply of
           NoReply \<Rightarrow> (start @ [Print TokenFetchError], Inr PNone)
         | Reply code body \<Rightarrow>
             if error_status code then (start @ [Print TokenFetchError], Inr PNone)
             else
               (case body of
                  None \<Rightarrow> (start @ [Print TokenFetchError], Inr PNone)
                | Some j \<Rightarrow>
                    (case seq (py_get j ''data'' (PDict []))
                           (\<lambda>data. py_get data ''authorizationToken'' PNone) of
                       Inl e \<Rightarrow> (start, Inl e)
                     | Inr token \<Rightarrow>
                         if py_truthy token then (start @ [Print TokenReceived], Inr token)
                         else (start @ [Print TokenNotFound], Inr PNone))))"

subsection \<open>\<open>submit_results\<close>\<close>

text \<open>One POST with the token in the \<open>Authorization\<close> header and \<open>{"data": output}\<close> as
  the body. Every exception is caught: the function never raises. \<open>requests.post\<close>
  prepares the request before it sends anything, and refuses with a
  \<open>RequestException\<close> a header value that is no string (\<open>InvalidHeader\<close>) and, from
  version 2.26 on, a JSON body that holds a NaN or an infinity (\<open>InvalidJSONError\<close>):
  then nothing is sent.\<close>

fun json_finite :: "pyval \<Rightarrow> bool" where
  "json_finite (PFloat x) = d_is_finite x"
| "json_finite (PList xs) = list_all json_finite xs"
| "json_finite (PDict kvs) = list_all (\<lambda>(k, v). json_finite v) kvs"
| "json_finite v = True"

definition is_str :: "pyval \<Rightarrow> bool" where
  "is_str v = (case v of PStr s \<Rightarrow> True | _ \<Rightarrow> False)"

definition submit_results :: "http_reply \<Rightarrow> string \<Rightarrow> pyval \<Rightarrow> pyval \<Rightarrow> event list" where
  "submit_results reply api_url token output =
     (if is_str token \<and> json_finite output then
        [Print Submitting,
         HttpPost (api_url @ CHECK_TOPK_ENDPOINT) token (PDict [(''data'', output)])] @
        (case reply of
           NoReply \<Rightarrow> [Print SubmitError]
         | Reply code body \<Rightarrow>
             if error_status code then [Print SubmitError]
             else [Print SubmissionSuccessful, Print ServerResponse])
      else [Print Submitting, Print SubmitError])"

subsection \<open>\<open>main\<close>\<close>

text \<open>The scoring loop. An entry that scores gets the key \<open>score\<close>; on \<open>KeyError\<close> or
  \<open>TypeError\<close> a line is printed and the entry stays in the list as it is; any other
  exception leaves the loop and the program.\<close>

fun scoring_pass :: "(double \<Rightarrow> double) \<Rightarrow> pyval list \<Rightarrow> event list \<times> (exn + pyval list)" where
  "scoring_pass libm_sin [] = ([], Inr [])"
| "scoring_pass libm_sin (entry # rest) =
     (case seq (calculate_score libm_sin entry) (\<lambda>s. py_setitem entry ''score'' s) of
        Inr entry' \<Rightarrow>
          (case scoring_pass libm_sin rest of
             (evs, Inr rest') \<Rightarrow> (evs, Inr (entry' # rest'))
           | (evs, Inl e) \<Rightarrow> (evs, Inl e))
      | Inl (KeyError k) \<Rightarrow>
          (case scoring_pass libm_sin rest of
             (evs, Inr rest') \<Rightarrow> (Print (MissingField k entry) # evs, Inr (entry # rest'))
           | (evs, Inl e) \<Rightarrow> (Print (MissingField k entry) # evs, Inl e))
      | Inl TypeError \<Rightarrow>
          (case scoring_pass libm_sin rest of
             (evs, Inr rest') \<Rightarrow> (Print (TypeErrorInEntry entry) # evs, Inr (entry # rest'))
           | (evs, Inl e) \<Rightarrow> (Print (TypeErrorInEntry entry) # evs, Inl e))
      | Inl e \<Rightarrow> ([], Inl e))"

text \<open>The key of the sort, the tuple
  \<open>(-x["score"], -x["rating"], x["distance_from_me"], x["restaurant_name"])\<close>.\<close>

definition ranking_key :: "pyval \<Rightarrow> exn + pyval list" where
  "ranking_key x =
     seq (py_getitem x ''score'') (\<lambda>s.
     seq (py_neg s) (\<lambda>k1.
     seq (py_getitem x ''rating'') (\<lambda>r.
     seq (py_neg r) (\<lambda>k2.
     seq (py_getitem x ''distance_from_me'') (\<lambda>k3.
     seq (py_getitem x ''restaurant_name'') (\<lambda>k4.
     Inr [k1, k2, k3, k4]))))))"

text \<open>Sorting and the slice \<open>[:10]\<close>.\<close>

definition top_10_results :: "pyval list \<Rightarrow> exn + pyval list" where
  "top_10_results validated_data =
     seq (py_sorted ranking_key validated_data) (\<lambda>sorted_data. Inr (take 10 sorted_data))"

text \<open>One dict of the output.\<close>

definition output_entry :: "pyval \<Rightarrow> exn + pyval" where
  "output_entry entry =
     seq (py_getitem entry ''id'') (\<lambda>v1.
     seq (py_getitem entry ''restaurant_name'') (\<lambda>v2.
     seq (py_getitem entry ''rating'') (\<lambda>v3.
     seq (py_getitem entry ''distance_from_me'') (\<lambda>v4.
     seq (py_getitem entry ''score'') (\<lambda>v5.
     Inr (PDict [(''id'', v1), (''restaurant_name'', v2), (''rating'', v3),
                 (''distance_from_me'', v4), (''score'', v5)]))))))"

text \<open>From the loaded data to the output list: iterate, score, sort, cut, project.\<close>

definition ranked_output :: "(double \<Rightarrow> double) \<Rightarrow> pyval \<Rightarrow> event list \<times> (exn + pyval)" where
  "ranked_output libm_sin validated_data =
     (case py_iter validated_data of
        Inl e \<Rightarrow> ([], Inl e)
      | Inr entries \<Rightarrow>
          (case scoring_pass libm_sin entries of
             (evs, Inl e) \<Rightarrow> (evs, Inl e)
           | (evs, Inr scored) \<Rightarrow>
               (evs, seq (top_10_results scored) (\<lambda>top.
                     seq (map_exn output_entry top) (\<lambda>out. Inr (PList out))))))"

text \<open>The whole run: the events in order, and the exception that ended it, if any.\<close>

definition main :: "(double \<Rightarrow> double) \<Rightarrow> env \<Rightarrow> event list \<times> exn option" where
  "main libm_sin w =
     (case load_validated_data (input_file w) of
        (evs0, Inl e) \<Rightarrow> (evs0, Some e)
      | (evs0, Inr validated_data) \<Rightarrow>
          if \<not> py_truthy validated_data then (evs0 @ [Print NoData], None)
          else
            (case ranked_output libm_sin validated_data of
               (evs1, Inl e) \<Rightarrow> (evs0 @ evs1, Some e)
             | (evs1, Inr output) \<Rightarrow>
                 (let evs2 = write_output_file (output_writable w) output OUTPUT_FILE
                  in (case get_authorization_token (register_reply w) API_URL of
                        (evs3, Inl e) \<Rightarrow> (evs0 @ evs1 @ evs2 @ evs3, Some e)
                      | (evs3, Inr token) \<Rightarrow>
                          if \<not> py_truthy token
                          then (evs0 @ evs1 @ evs2 @ evs3 @ [Print TokenFetchFailed], None)
                          else (evs0 @ evs1 @ evs2 @ evs3 @
                                submit_results (submit_reply w) API_URL token output, None)))))"

section \<open>The specification's formula\<close>

text \<open>The scorer's formula as the specification writes it,
  \<open>round(((rating*10 - distance_from_me*0.5 + sin(id)*2)*100 + 0.5)/100, 2)\<close>,
  is an expression tree; \<open>eval\<close> evaluates a tree as Python does, the left operand
  before the right one, stopping at the first exception.\<close>

datatype expr =
    Val pyval
  | Mul expr expr
  | Sub expr expr
  | Add expr expr
  | Div expr expr
  | Sin expr
  | Round2 expr

fun eval :: "(double \<Rightarrow> double) \<Rightarrow> expr \<Rightarrow> exn + pyval" where
  "eval sn (Val v) = Inr v"
| "eval sn (Mul a b) = seq (eval sn a) (\<lambda>x. seq (eval sn b) (\<lambda>y. py_mul x y))"
| "eval sn (Sub a b) = seq (eval sn a) (\<lambda>x. seq (eval sn b) (\<lambda>y. py_sub x y))"
| "eval sn (Add a b) = seq (eval sn a) (\<lambda>x. seq (eval sn b) (\<lambda>y. py_add x y))"
| "eval sn (Div a b) = seq (eval sn a) (\<lambda>x. seq (eval sn b) (\<lambda>y. py_truediv x y))"
| "eval sn (Sin a) = seq (eval sn a) (math_sin sn)"
| "eval sn (Round2 a) = seq (eval sn a) py_round2"

definition spec_score :: "pyval \<Rightarrow> pyval \<Rightarrow> pyval \<Rightarrow> expr" where
  "spec_score rating distance_from_me ident =
     Round2 (Div (Add (Mul (Add (Sub (Mul (Val rating) (Val (PInt 10)))
                                     (Mul (Val distance_from_me) (Val (PFloat d_half))))
                                (Mul (Sin (Val ident)) (Val (PInt 2))))
                           (Val (PInt 100)))
                      (Val (PFloat d_half)))
                 (Val (PInt 100)))"

text \<open>A numeric field: an \<open>int\<close>, a \<open>float\<close> or a \<open>bool\<close>.\<close>

definition is_numeric :: "pyval \<Rightarrow> bool" where
  "is_numeric v = (as_num v \<noteq> None)"

text \<open>Rounding half up to two decimals, as the specification words it: the magnitude
  times 100, plus one half, rounded down; the sign kept.\<close>

definition half_up_round2 :: "double \<Rightarrow> double" where
  "half_up_round2 x =
     d_make (d_sign x) (mag_of_rat (of_int \<lfloor>mag_val (d_mag x) * 100 + 1 / 2\<rfloor> / 100))"

section \<open>The specification's ranking\<close>

text \<open>The records the composite order is an order on: a dict whose \<open>score\<close>, \<open>rating\<close>
  and \<open>distance_from_me\<close> are numbers other than NaN and whose \<open>restaurant_name\<close> is a
  string. This is less than the data model's scored record: a NaN is a \<open>float\<close>, and the
  scorer returns one when its sum has no value (\<open>inf - inf\<close>). A NaN compares unequal to
  everything, itself included, and is neither less nor greater than anything.\<close>

definition comparable_number :: "pyval \<Rightarrow> bool" where
  "comparable_number v = (case as_num v of Some n \<Rightarrow> \<not> num_is_nan n | None \<Rightarrow> False)"

definition rankable_record :: "pyval \<Rightarrow> bool" where
  "rankable_record x =
     (case x of
        PDict kvs \<Rightarrow>
          (case (map_of kvs ''score'', map_of kvs ''rating'',
                 map_of kvs ''distance_from_me'', map_of kvs ''restaurant_name'') of
             (Some s, Some r, Some d, Some (PStr n)) \<Rightarrow>
               comparable_number s \<and> comparable_number r \<and> comparable_number d
           | _ \<Rightarrow> False)
      | _ \<Rightarrow> False)"

text \<open>The four fields the ranking reads: the three numbers by their position on the
  extended rational line (so \<open>4\<close> and \<open>4.0\<close> are the same rating), the name as a
  string.\<close>

definition number_at :: "pyval \<Rightarrow> string \<Rightarrow> int \<times> rat" where
  "number_at x k =
     (case py_getitem x k of
        Inr v \<Rightarrow> (case as_num v of Some n \<Rightarrow> num_ord n | None \<Rightarrow> (0, 0))
      | Inl e \<Rightarrow> (0, 0))"

definition name_at :: "pyval \<Rightarrow> string" where
  "name_at x = (case py_getitem x ''restaurant_name'' of Inr (PStr n) \<Rightarrow> n | _ \<Rightarrow> [])"

text \<open>The composite order: \<open>score\<close> descending, then \<open>rating\<close> descending, then
  \<open>distance_from_me\<close> ascending, then \<open>restaurant_name\<close> ascending (by character code,
  case-sensitive).\<close>

definition ranks_before :: "pyval \<Rightarrow> pyval \<Rightarrow> bool" where
  "ranks_before a b =
     (number_at b ''score'' < number_at a ''score'' \<or>
      (number_at a ''score'' = number_at b ''score'' \<and>
       (number_at b ''rating'' < number_at a ''rating'' \<or>
        (number_at a ''rating'' = number_at b ''rating'' \<and>
         (number_at a ''distance_from_me'' < number_at b ''distance_from_me'' \<or>
          (number_at a ''distance_from_me'' = number_at b ''distance_from_me'' \<and>
           name_at a < name_at b))))))"

definition same_rank :: "pyval \<Rightarrow> pyval \<Rightarrow> bool" where
  "same_rank a b =
     (number_at a ''score'' = number_at b ''score'' \<and>
      number_at a ''rating'' = number_at b ''rating'' \<and>
      number_at a ''distance_from_me'' = number_at b ''distance_from_me'' \<and>
      name_at a = name_at b)"

section \<open>The specification's frame\<close>

text \<open>What scoring may change in a record: the key \<open>score\<close> alone. A record that
  scores holds its score afterwards; one that does not is left as it was.\<close>

definition scored_from :: "(double \<Rightarrow> double) \<Rightarrow> pyval \<Rightarrow> pyval \<Rightarrow> bool" where
  "scored_from libm_sin a b =
     ((\<forall>k. k \<noteq> ''score'' \<longrightarrow> py_getitem b k = py_getitem a k) \<and>
      (case calculate_score libm_sin a of
         Inr v \<Rightarrow> py_getitem b ''score'' = Inr v
       | Inl e \<Rightarrow> b = a))"

text \<open>The fields of an output record, in order, and the keys of a dict, in order.\<close>

definition output_fields :: "string list" where
  "output_fields = [''id'', ''restaurant_name'', ''rating'', ''distance_from_me'', ''score'']"

definition dict_keys :: "pyval \<Rightarrow> string list" where
  "dict_keys x = (case x of PDict kvs \<Rightarrow> map fst kvs | _ \<Rightarrow> [])"

section \<open>Auxiliary definitions\<close>

text \<open>The composite order as one lexicographic order on tuples: \<open>flip\<close> mirrors the
  extended rational line, which turns descending into ascending. \<open>the_key\<close> is the key
  tuple of a record that has one, and \<open>key_shape\<close> says what the tuple of a scored
  record looks like.\<close>

definition flip :: "int \<times> rat \<Rightarrow> int \<times> rat" where
  "flip p = (- fst p, - snd p)"

definition rank_tuple :: "pyval \<Rightarrow> (int \<times> rat) \<times> (int \<times> rat) \<times> (int \<times> rat) \<times> string" where
  "rank_tuple x =
     (flip (number_at x ''score''), flip (number_at x ''rating''),
      number_at x ''distance_from_me'', name_at x)"

definition the_key :: "pyval \<Rightarrow> pyval list" where
  "the_key x = (case ranking_key x of Inr k \<Rightarrow> k | Inl e \<Rightarrow> [])"

definition key_shape :: "pyval \<Rightarrow> pyval list \<Rightarrow> bool" where
  "key_shape x k =
     (\<exists>k1 k2 k3 n1 n2 n3.
        k = [k1, k2, k3, PStr (name_at x)] \<and>
        as_num k1 = Some n1 \<and> \<not> num_is_nan n1 \<and> num_ord n1 = flip (number_at x ''score'') \<and>
        as_num k2 = Some n2 \<and> \<not> num_is_nan n2 \<and> num_ord n2 = flip (number_at x ''rating'') \<and>
        as_num k3 = Some n3 \<and> \<not> num_is_nan n3 \<and> num_ord n3 = number_at x ''distance_from_me'')"

section \<open>Example inputs\<close>

text \<open>The values of the C library's sine at the doubles 0, 1, 2, 3, 4, 5 and 355 (as
  glibc on x86-64 returns them; \<open>sin(\<plusminus>0) = \<plusminus>0\<close> on every platform). The examples below
  only use these identifiers; elsewhere the sample has no value to offer and answers
  NaN.\<close>

definition sin_sample :: "double \<Rightarrow> double" where
  "sin_sample x =
     (if d_is_zero x then x
      else if x = 0x3FF0000000000000 then 0x3FEAED548F090CEE
      else if x = 0x4000000000000000 then 0x3FED18F6EAD1B446
      else if x = 0x4008000000000000 then 0x3FC210386DB6D55B
      else if x = 0x4010000000000000 then 0xBFE837B9DDDC1EAE
      else if x = 0x4014000000000000 then 0xBFEEAF81F5E09933
      else if x = 0x4076300000000000 then 0xBEFF9BD0307D1DE3
      else d_nan)"

text \<open>\<open>{"id": 1, "restaurant_name": "A", "rating": 4, "distance_from_me": 2}\<close> and
  \<open>{"id": 2, "restaurant_name": "B", "rating": 4.5, "distance_from_me": 1.3}\<close>.\<close>

definition example_a :: pyval where
  "example_a = PDict [(''id'', PInt 1), (''restaurant_name'', PStr ''A''),
                      (''rating'', PInt 4), (''distance_from_me'', PInt 2)]"

definition example_b :: pyval where
  "example_b = PDict [(''id'', PInt 2), (''restaurant_name'', PStr ''B''),
                      (''rating'', PFloat 0x4012000000000000),
                      (''distance_from_me'', PFloat 0x3FF4CCCCCCCCCCCD)]"

text \<open>\<open>example_a\<close> under another name and with one more field.\<close>

definition example_a_renamed :: pyval where
  "example_a_renamed = PDict [(''id'', PInt 1), (''restaurant_name'', PStr ''Z''),
                              (''cuisine'', PStr ''thai''),
                              (''rating'', PInt 4), (''distance_from_me'', PInt 2)]"

text \<open>\<open>example_a\<close> without its rating.\<close>

definition example_no_rating :: pyval where
  "example_no_rating = PDict [(''id'', PInt 1), (''restaurant_name'', PStr ''A''),
                              (''distance_from_me'', PInt 2)]"

text \<open>The two examples after scoring, a record that ties with the first on all four
  keys (its rating is the float \<open>4.0\<close>), and the first example with a \<open>score\<close> already
  in the input.\<close>

definition example_a_scored :: pyval where
  "example_a_scored = PDict [(''id'', PInt 1), (''restaurant_name'', PStr ''A''),
                             (''rating'', PInt 4), (''distance_from_me'', PInt 2),
                             (''score'', PFloat 0x40445851EB851EB8)]"

definition example_b_scored :: pyval where
  "example_b_scored = PDict [(''id'', PInt 2), (''restaurant_name'', PStr ''B''),
                             (''rating'', PFloat 0x4012000000000000),
                             (''distance_from_me'', PFloat 0x3FF4CCCCCCCCCCCD),
                             (''score'', PFloat 0x404715C28F5C28F6)]"

definition example_a_twin :: pyval where
  "example_a_twin = PDict [(''id'', PInt 7), (''restaurant_name'', PStr ''A''),
                           (''rating'', PFloat 0x4010000000000000), (''distance_from_me'', PInt 2),
                           (''score'', PFloat 0x40445851EB851EB8)]"

definition example_with_score :: pyval where
  "example_with_score = PDict [(''id'', PInt 1), (''restaurant_name'', PStr ''A''),
                               (''rating'', PInt 4), (''distance_from_me'', PInt 2),
                               (''score'', PInt 99)]"

text \<open>\<open>{"id": 0, "restaurant_name": "H", "rating": 1e308, "distance_from_me": 0}\<close>:
  ten times the rating is beyond the largest double.\<close>

definition example_huge :: pyval where
  "example_huge = PDict [(''id'', PInt 0), (''restaurant_name'', PStr ''H''),
                         (''rating'', PFloat 0x7FE1CCF385EBC8A0), (''distance_from_me'', PInt 0)]"

text \<open>\<open>{"id": 0, "restaurant_name": "T", "rating": 3, "distance_from_me": 0.76}\<close>:
  \<open>score / 100\<close> is exactly 29.625, half way between 29.62 and 29.63.\<close>

definition example_tie :: pyval where
  "example_tie = PDict [(''id'', PInt 0), (''restaurant_name'', PStr ''T''),
                        (''rating'', PInt 3), (''distance_from_me'', PFloat 0x3FE851EB851EB852)]"

text \<open>Three records, the second with
  \<open>"rating": 1e309, "distance_from_me": 1e309\<close>. Both literals are beyond the largest
  double and are read as \<open>inf\<close>, so the scorer subtracts \<open>inf\<close> from \<open>inf\<close> and the score is
  NaN. The other two score 10.01 and 21.82.\<close>

definition example_l :: pyval where
  "example_l = PDict [(''id'', PInt 0), (''restaurant_name'', PStr ''L''),
                      (''rating'', PInt 1), (''distance_from_me'', PInt 0)]"

definition example_n :: pyval where
  "example_n = PDict [(''id'', PInt 1), (''restaurant_name'', PStr ''N''),
                      (''rating'', PFloat 0x7FF0000000000000),
                      (''distance_from_me'', PFloat 0x7FF0000000000000)]"

definition example_h :: pyval where
  "example_h = PDict [(''id'', PInt 2), (''restaurant_name'', PStr ''H''),
                      (''rating'', PInt 2), (''distance_from_me'', PInt 0)]"

definition with_score :: "pyval \<Rightarrow> double \<Rightarrow> pyval" where
  "with_score x s = (case x of PDict kvs \<Rightarrow> PDict (kvs @ [(''score'', PFloat s)]) | _ \<Rightarrow> x)"

text \<open>Seven records with the identifiers 1, 2, 3, 4, 5, 0 and 355, in this order. The
  fifth scores NaN as above. The last two are two entries of one restaurant: same name,
  rating and distance, and the same score 20.0, since \<open>2 sin 355\<close> is about
  \<open>-0.00006\<close>.\<close>

definition restaurant :: "int \<Rightarrow> string \<Rightarrow> int \<Rightarrow> pyval" where
  "restaurant ident name rating =
     PDict [(''id'', PInt ident), (''restaurant_name'', PStr name),
            (''rating'', PInt rating), (''distance_from_me'', PInt 0)]"

definition example_seven :: "pyval list" where
  "example_seven =
     [restaurant 1 ''A'' 5, restaurant 2 ''B'' 4, restaurant 3 ''C'' 1, restaurant 4 ''D'' 3,
      PDict [(''id'', PInt 5), (''restaurant_name'', PStr ''N''),
             (''rating'', PFloat 0x7FF0000000000000),
             (''distance_from_me'', PFloat 0x7FF0000000000000)],
      restaurant 0 ''K'' 2, restaurant 355 ''K'' 2]"

text \<open>The same records after scoring, in input order.\<close>

definition example_three_scored :: "pyval list" where
  "example_three_scored =
     [with_score example_l 0x4024051EB851EB85, with_score example_n d_nan,
      with_score example_h 0x4035D1EB851EB852]"

definition example_seven_scored :: "pyval list" where
  "example_seven_scored =
     map2 with_score example_seven
       [0x4049D851EB851EB8, 0x4044E8F5C28F5C29, 0x4024947AE147AE14, 0x403C7D70A3D70A3D,
        d_nan, 0x4034000000000000, 0x4034000000000000]"

text \<open>The seven scored records in the order 1, 2, 4, 355, 3, 5, 0 of their identifiers.\<close>

definition example_seven_ranked :: "pyval list" where
  "example_seven_ranked = map ((!) example_seven_scored) [0, 1, 3, 6, 2, 4, 5]"

definition example_env :: "file_read \<Rightarrow> http_reply \<Rightarrow> env" where
  "example_env file reply =
     \<lparr>input_file = file, output_writable = True,
      register_reply = reply, submit_reply = Reply 200 None\<rparr>"

section \<open>Proofs\<close>

subsection \<open>Evaluation\<close>

text \<open>Code equations that keep the evaluation of concrete inputs short: a power of two
  is computed on integers, and zero and the large exponents need no fraction.\<close>

lemma pow2_code [code]: "pow2 k = (if 0 \<le> k then of_int (2 ^ nat k) else 1 / of_int (2 ^ nat (- k)))"
  by (simp add: pow2_def)

lemma mag_val_code [code]:
  "mag_val m =
     (if m = 0 then 0
      else if m div 2 ^ 52 = 0 then of_int m * pow2 (- 1074)
      else if 1075 \<le> m div 2 ^ 52 then of_int ((2 ^ 52 + m mod 2 ^ 52) * 2 ^ nat (m div 2 ^ 52 - 1075))
      else of_int (2 ^ 52 + m mod 2 ^ 52) * pow2 (m div 2 ^ 52 - 1075))"
  by (simp add: mag_val_def pow2_def)

subsection \<open>Sequencing\<close>

lemma seq_Inr [simp]: "seq (Inr v) f = f v"
  by (simp add: seq_def)

lemma seq_Inl [simp]: "seq (Inl e) f = Inl e"
  by (simp add: seq_def)

lemma seq_assoc: "seq (seq m f) g = seq m (\<lambda>x. seq (f x) g)"
  by (cases m) simp_all

lemma seq_eq_Inr: "seq m f = Inr y \<longleftrightarrow> (\<exists>x. m = Inr x \<and> f x = Inr y)"
  by (cases m) (simp_all add: seq_def)

subsection \<open>Doubles: sign and magnitude\<close>

lemma d_mag_bounds: "0 \<le> d_mag w" "d_mag w < 2 ^ 63"
  by (simp_all add: d_mag_def)

lemma uint_of_int64: "0 \<le> k \<Longrightarrow> k < 2 ^ 64 \<Longrightarrow> uint (word_of_int k :: 64 word) = k"
  by (simp add: uint_word_of_int)

lemma uint_d_make:
  assumes "0 \<le> m" "m < 2 ^ 63"
  shows "uint (d_make s m) = (if s then 2 ^ 63 + m else m)"
proof (cases s)
  case True
  have "uint (word_of_int (2 ^ 63 + m) :: 64 word) = 2 ^ 63 + m"
    using assms by (intro uint_of_int64) simp_all
  with True show ?thesis by (simp only: d_make_def if_True)
next
  case False
  have "uint (word_of_int m :: 64 word) = m"
    using assms by (intro uint_of_int64) simp_all
  with False show ?thesis by (simp only: d_make_def if_False)
qed

lemma d_mag_make: "0 \<le> m \<Longrightarrow> m < 2 ^ 63 \<Longrightarrow> d_mag (d_make s m) = m"
  by (simp add: d_mag_def uint_d_make)

lemma d_sign_make: "0 \<le> m \<Longrightarrow> m < 2 ^ 63 \<Longrightarrow> d_sign (d_make s m) = s"
  by (simp add: d_sign_def uint_d_make)

lemma d_neg_mag [simp]: "d_mag (d_neg x) = d_mag x"
  using d_mag_bounds [of x] by (simp add: d_neg_def d_mag_make)

lemma d_neg_sign [simp]: "d_sign (d_neg x) = (\<not> d_sign x)"
  using d_mag_bounds [of x] by (simp add: d_neg_def d_sign_make)

lemma d_neg_class [simp]:
  "d_is_nan (d_neg x) = d_is_nan x" "d_is_inf (d_neg x) = d_is_inf x"
  by (simp_all add: d_is_nan_def d_is_inf_def)

lemma d_neg_val [simp]: "d_val (d_neg x) = - d_val x"
  by (simp add: d_val_def)

subsection \<open>Doubles: rounding stays in range\<close>

lemma pow2_powi: "pow2 k = power_int 2 k"
  by (simp add: pow2_def power_int_def inverse_eq_divide power_one_over)

lemma pow2_pos [simp]: "0 < pow2 k"
  by (simp add: pow2_powi)

lemma pow2_nonzero [simp]: "pow2 k \<noteq> 0"
  by (metis less_irrefl pow2_pos)

lemma pow2_add: "pow2 (a + b) = pow2 a * pow2 b"
  by (simp add: pow2_powi power_int_add)

lemma pow2_mono: "a \<le> b \<Longrightarrow> pow2 a \<le> pow2 b"
  by (simp add: pow2_powi power_int_increasing)

lemma pow2_less_cancel: "pow2 a < pow2 b \<Longrightarrow> a < b"
  using pow2_mono [of b a] by (cases "a < b") auto

lemma pow2_nat: "0 \<le> k \<Longrightarrow> pow2 k = of_int (2 ^ nat k)"
  by (simp add: pow2_def)

lemma bit_length_pos: "0 < n \<Longrightarrow> 1 \<le> bit_length n \<and> 2 ^ nat (bit_length n - 1) \<le> n \<and> n < 2 ^ nat (bit_length n)"
proof (induction n rule: bit_length.induct)
  case (1 n)
  have bl: "bit_length n = 1 + bit_length (n div 2)"
    using "1.prems" by (simp add: bit_length.simps [of n])
  show ?case
  proof (cases "n div 2 = 0")
    case True
    then have "n = 1" using "1.prems" by presburger
    then show ?thesis by (simp add: bit_length.simps [of 1] bit_length.simps [of 0])
  next
    case False
    then have pos: "0 < n div 2" using "1.prems" by presburger
    let ?b = "bit_length (n div 2)"
    from "1.IH" [OF _ pos] "1.prems" have ih: "1 \<le> ?b" "2 ^ nat (?b - 1) \<le> n div 2"
      "n div 2 < 2 ^ nat ?b" by auto
    have e: "(2::int) ^ nat ?b = 2 * 2 ^ nat (?b - 1)"
      using ih(1) by (metis Suc_nat_eq_nat_zadd1 add.commute diff_add_cancel diff_ge_0_iff_ge power_Suc)
    have "nat (1 + ?b - 1) = nat ?b" by simp
    moreover have "nat (1 + ?b) = Suc (nat ?b)" using ih(1) by simp
    moreover have "2 ^ nat ?b \<le> n" using ih(2) e by presburger
    moreover have "n < 2 * 2 ^ nat ?b" using ih(3) by presburger
    ultimately show ?thesis using ih(1) bl by simp
  qed
qed

lemma bit_length_rat:
  assumes "0 < n"
  shows "pow2 (bit_length n - 1) \<le> of_int n" "of_int n < pow2 (bit_length n)"
proof -
  from bit_length_pos [OF assms] have b: "1 \<le> bit_length n"
    "2 ^ nat (bit_length n - 1) \<le> n" "n < 2 ^ nat (bit_length n)" by auto
  have "pow2 (bit_length n - 1) = of_int (2 ^ nat (bit_length n - 1))"
    using b(1) by (intro pow2_nat) simp
  also have "\<dots> \<le> of_int n" using b(2) by (simp only: of_int_le_iff)
  finally show "pow2 (bit_length n - 1) \<le> of_int n" .
  have "(of_int n :: rat) < of_int (2 ^ nat (bit_length n))"
    using b(3) by (simp only: of_int_less_iff)
  also have "\<dots> = pow2 (bit_length n)"
    using b(1) by (intro pow2_nat [symmetric]) simp
  finally show "of_int n < pow2 (bit_length n)" .
qed

lemma ilog2_bounds:
  assumes "0 < r"
  shows "pow2 (ilog2 r) \<le> r" "r < pow2 (ilog2 r + 1)"
proof -
  obtain p q where pq: "quotient_of r = (p, q)" by (cases "quotient_of r") auto
  then have q: "0 < q" and r: "r = of_int p / of_int q"
    by (simp_all add: quotient_of_denom_pos quotient_of_div)
  have p: "0 < p"
    using assms q r by (simp add: zero_less_divide_iff)
  let ?d = "bit_length p - bit_length q"
  note bp = bit_length_rat [OF p] and bq = bit_length_rat [OF q]
  have qpos: "(0::rat) < of_int q" using q by simp
  have lo: "pow2 (?d - 1) \<le> r"
  proof -
    have "pow2 (?d - 1) * of_int q \<le> pow2 (?d - 1) * pow2 (bit_length q)"
      using bq(2) by (intro mult_left_mono) (simp_all add: less_imp_le)
    also have "\<dots> = pow2 (bit_length p - 1)"
      by (simp add: pow2_add [symmetric])
    also have "\<dots> \<le> of_int p" by (rule bp(1))
    finally show ?thesis
      using qpos by (simp add: r pos_le_divide_eq)
  qed
  have hi: "r < pow2 (?d + 1)"
  proof -
    have "of_int p < pow2 (bit_length p)" by (rule bp(2))
    also have "\<dots> = pow2 (?d + 1) * pow2 (bit_length q - 1)"
      by (simp add: pow2_add [symmetric])
    also have "\<dots> \<le> pow2 (?d + 1) * of_int q"
      using bq(1) by (intro mult_left_mono) (simp_all add: less_imp_le)
    finally show ?thesis
      using qpos by (simp add: r pos_divide_less_eq)
  qed
  have il: "ilog2 r = (if pow2 ?d \<le> r then ?d else ?d - 1)"
    using pq by (simp add: ilog2_def)
  show "pow2 (ilog2 r) \<le> r" using lo il by simp
  show "r < pow2 (ilog2 r + 1)" using hi il by (simp add: not_le)
qed

lemma round_half_even_bounds:
  "of_int (round_half_even r) \<le> r + 1 / 2" "r - 1 / 2 \<le> of_int (round_half_even r)"
  unfolding round_half_even_def Let_def by (simp_all; linarith)+

lemma round_half_even_tie:
  assumes "\<bar>of_int (round_half_even r) - r\<bar> = 1 / 2"
  shows "even (round_half_even r)"
proof -
  let ?f = "\<lfloor>r\<rfloor>"
  let ?d = "r - of_int ?f"
  have d: "0 \<le> ?d" "?d < 1" by linarith+
  consider "?d < 1 / 2" | "1 / 2 < ?d" | "?d = 1 / 2" by linarith
  then show ?thesis
  proof cases
    case 1
    then have "round_half_even r = ?f" by (simp add: round_half_even_def)
    with assms 1 d show ?thesis by simp
  next
    case 2
    then have "round_half_even r = ?f + 1" by (simp add: round_half_even_def)
    with assms 2 d show ?thesis by simp
  next
    case 3
    then have "round_half_even r = (if even ?f then ?f else ?f + 1)"
      by (simp add: round_half_even_def)
    then show ?thesis by simp
  qed
qed

lemma round_half_even_of_int [simp]: "round_half_even (of_int k) = k"
  by (simp add: round_half_even_def)

lemma round_half_even_le: "r \<le> of_int K \<Longrightarrow> round_half_even r \<le> K"
proof -
  assume "r \<le> of_int K"
  with round_half_even_bounds(1) [of r] have "(of_int (round_half_even r) :: rat) < of_int K + 1"
    by linarith
  then have "(of_int (round_half_even r) :: rat) < of_int (K + 1)" by simp
  then show ?thesis by (simp only: of_int_less_iff)
qed

lemma round_half_even_nonneg: "0 \<le> r \<Longrightarrow> 0 \<le> round_half_even r"
proof -
  assume "0 \<le> r"
  with round_half_even_bounds(2) [of r] have "(of_int (- 1) :: rat) < of_int (round_half_even r)"
    by simp
  then show ?thesis by (simp only: of_int_less_iff)
qed

lemma mag_of_rat_nonneg: "0 \<le> mag_of_rat r"
proof (cases "r \<le> 0")
  case True
  then show ?thesis by (simp add: mag_of_rat_def)
next
  case False
  let ?e = "max (ilog2 r) (- 1022)"
  have "0 \<le> r / pow2 (?e - 52)" using False by (simp add: less_imp_le)
  then have "0 \<le> round_half_even (r / pow2 (?e - 52))" by (rule round_half_even_nonneg)
  moreover have "0 \<le> (?e + 1022) * 2 ^ 52" by simp
  ultimately show ?thesis
    using False by (simp add: mag_of_rat_def Let_def inf_mag_def)
qed

lemma mag_of_rat_finite:
  assumes "r \<le> max_double"
  shows "mag_of_rat r < inf_mag"
proof (cases "r \<le> 0")
  case True
  then show ?thesis by (simp add: mag_of_rat_def inf_mag_def)
next
  case False
  then have pos: "0 < r" by simp
  let ?l = "ilog2 r"
  let ?e = "max ?l (- 1022)"
  let ?n = "round_half_even (r / pow2 (?e - 52))"
  note b = ilog2_bounds [OF pos]
  have md: "max_double < pow2 1024"
  proof -
    have "max_double < 2 ^ 53 * pow2 971"
      unfolding max_double_def by (intro mult_strict_right_mono) simp_all
    also have "\<dots> = pow2 53 * pow2 971" by (simp add: pow2_def)
    also have "\<dots> = pow2 1024" by (simp add: pow2_add [symmetric])
    finally show ?thesis .
  qed
  have "pow2 ?l < pow2 1024" using b(1) assms md by linarith
  then have l: "?l \<le> 1023" using pow2_less_cancel [of ?l 1024] by simp
  then have e: "?e \<le> 1023" by simp
  have q53: "r / pow2 (?e - 52) \<le> of_int (2 ^ 53)"
  proof -
    have "r < pow2 (?e + 1)" using b(2) pow2_mono [of "?l + 1" "?e + 1"] by simp
    also have "\<dots> = pow2 53 * pow2 (?e - 52)" using pow2_add [of 53 "?e - 52"] by (simp add: add.commute)
    finally have "r / pow2 (?e - 52) < pow2 53" by (simp add: pos_divide_less_eq)
    then show ?thesis by (simp add: pow2_def)
  qed
  have n53: "?n \<le> 2 ^ 53" using q53 by (rule round_half_even_le)
  have "(?e + 1022) * 2 ^ 52 + ?n < inf_mag"
  proof (cases "?e = 1023")
    case True
    have "r / pow2 (?e - 52) \<le> max_double / pow2 971"
      using assms True divide_right_mono [of r max_double "pow2 971"] pow2_pos [of 971]
      by (simp add: less_imp_le)
    also have "\<dots> = of_int (2 ^ 53 - 1)" by (simp add: max_double_def)
    finally have "?n \<le> 2 ^ 53 - 1" by (rule round_half_even_le)
    then show ?thesis using True by (simp add: inf_mag_def)
  next
    case False
    with e have "?e \<le> 1022" by linarith
    then have "(?e + 1022) * 2 ^ 52 \<le> 2044 * 2 ^ 52" by simp
    with n53 show ?thesis by (simp add: inf_mag_def)
  qed
  then show ?thesis
    using False by (simp add: mag_of_rat_def Let_def)
qed

lemma mag_val_bounds:
  assumes "0 \<le> m" "m < inf_mag"
  shows "0 \<le> mag_val m" "mag_val m \<le> max_double"
    "mag_val m < 2 ^ 52 \<or> (\<exists>k. mag_val m = of_int k)"
proof -
  let ?e = "m div 2 ^ 52"
  let ?f = "m mod 2 ^ 52"
  have f: "0 \<le> ?f" "?f < 2 ^ 52" by simp_all
  have e: "0 \<le> ?e" "?e \<le> 2046"
    using assms by (simp_all add: inf_mag_def pos_imp_zdiv_nonneg_iff)
  show "0 \<le> mag_val m"
    using assms f by (simp add: mag_val_def less_imp_le)
  have small: "mag_val m < 2 ^ 52" if "?e \<le> 1074"
  proof (cases "?e = 0")
    case True
    then have "m < 2 ^ 52" using assms(1) by fastforce
    then have "(of_int m :: rat) < of_int (2 ^ 52)" by (simp only: of_int_less_iff)
    moreover have "pow2 (- 1074) \<le> 1" using pow2_mono [of "- 1074" 0] by (simp add: pow2_def)
    ultimately have "of_int m * pow2 (- 1074) < of_int (2 ^ 52) * 1"
      using assms(1) by (intro mult_less_le_imp_less) simp_all
    with True show ?thesis by (simp add: mag_val_def)
  next
    case False
    have "(of_int (2 ^ 52 + ?f) :: rat) < of_int (2 ^ 53)"
      using f(2) by (simp only: of_int_less_iff) simp
    moreover have "pow2 (?e - 1075) \<le> pow2 (- 1)" using that by (intro pow2_mono) simp
    ultimately have "of_int (2 ^ 52 + ?f) * pow2 (?e - 1075) < of_int (2 ^ 53) * pow2 (- 1)"
      using f(1) by (intro mult_less_le_imp_less) simp_all
    then show ?thesis using False by (simp add: mag_val_def pow2_def)
  qed
  have big: "mag_val m = of_int ((2 ^ 52 + ?f) * 2 ^ nat (?e - 1075))" if "1075 \<le> ?e"
    using that by (simp add: mag_val_def pow2_nat)
  show "mag_val m < 2 ^ 52 \<or> (\<exists>k. mag_val m = of_int k)"
  proof (cases "?e \<le> 1074")
    case True
    then show ?thesis using small by blast
  next
    case False
    then have "1075 \<le> ?e" by simp
    from big [OF this] show ?thesis by blast
  qed
  show "mag_val m \<le> max_double"
  proof (cases "?e \<le> 1074")
    case True
    have "(2::rat) ^ 52 \<le> (2 ^ 53 - 1) * 1" by simp
    also have "\<dots> \<le> (2 ^ 53 - 1) * pow2 971"
      using pow2_mono [of 0 971] by (intro mult_left_mono) (simp_all add: pow2_def)
    finally show ?thesis using small [OF True] by (simp add: max_double_def)
  next
    case False
    have "(of_int (2 ^ 52 + ?f) :: rat) \<le> of_int (2 ^ 53 - 1)"
      using f(2) by (simp only: of_int_le_iff) simp
    moreover have "pow2 (?e - 1075) \<le> pow2 971" using e(2) by (intro pow2_mono) simp
    ultimately have "of_int (2 ^ 52 + ?f) * pow2 (?e - 1075) \<le> of_int (2 ^ 53 - 1) * pow2 971"
      using f(1) by (intro mult_mono) (simp_all add: less_imp_le)
    then show ?thesis using False by (simp add: mag_val_def max_double_def)
  qed
qed

lemma d_val_abs: "\<bar>d_val x\<bar> = mag_val (d_mag x)"
proof -
  have "0 \<le> mag_val (d_mag x)"
    by (simp add: mag_val_def d_mag_bounds less_imp_le)
  then show ?thesis by (simp add: d_val_def)
qed

lemma float_round2_finite:
  assumes "d_is_finite x"
  shows "float_round2 x =
           Inr (d_make (d_sign x) (mag_of_rat (of_int (round_half_even (\<bar>d_val x\<bar> * 100)) / 100))) \<and>
         d_is_finite (d_make (d_sign x) (mag_of_rat (of_int (round_half_even (\<bar>d_val x\<bar> * 100)) / 100)))"
proof -
  let ?mv = "mag_val (d_mag x)"
  let ?n = "round_half_even (?mv * 100)"
  let ?q = "(of_int ?n :: rat) / 100"
  let ?m = "mag_of_rat ?q"
  have fin: "d_mag x < inf_mag" using assms by (simp add: d_is_finite_def)
  note mv = mag_val_bounds [OF d_mag_bounds(1) fin]
  have one: "(2::rat) ^ 52 + 1 \<le> max_double"
  proof -
    have "(2::rat) ^ 52 + 1 \<le> (2 ^ 53 - 1) * 1" by simp
    also have "\<dots> \<le> (2 ^ 53 - 1) * pow2 971"
      using pow2_mono [of 0 971] by (intro mult_left_mono) (simp_all add: pow2_def)
    finally show ?thesis by (simp add: max_double_def)
  qed
  have "?q \<le> max_double"
    using mv(3)
  proof
    assume "?mv < 2 ^ 52"
    with round_half_even_bounds(1) [of "?mv * 100"] have "?q < 2 ^ 52 + 1" by simp
    with one show ?thesis by linarith
  next
    assume "\<exists>k. ?mv = of_int k"
    then obtain k where k: "?mv = of_int k" by blast
    have "?mv * 100 = of_int (k * 100)" by (simp add: k)
    then have "?n = k * 100" by (simp only: round_half_even_of_int)
    then have "?q = ?mv" by (simp add: k)
    with mv(2) show ?thesis by simp
  qed
  then have m: "?m < inf_mag" by (rule mag_of_rat_finite)
  have m0: "0 \<le> ?m" by (rule mag_of_rat_nonneg)
  have m63: "?m < 2 ^ 63" using m by (simp add: inf_mag_def)
  have dm: "d_mag (d_make (d_sign x) ?m) = ?m"
    using m0 m63 by (rule d_mag_make)
  have f: "d_is_finite (d_make (d_sign x) ?m)" "\<not> d_is_inf (d_make (d_sign x) ?m)"
    using m by (simp_all add: d_is_finite_def d_is_inf_def dm)
  show ?thesis
    using assms f by (simp add: float_round2_def Let_def d_val_abs)
qed

subsection \<open>The scorer\<close>

text \<open>C1. On a record whose \<open>rating\<close>, \<open>distance_from_me\<close> and \<open>id\<close> are numbers,
  \<open>calculate_score\<close> computes exactly the specification's formula, operation by
  operation: the same value, or the same exception where an operand does not fit a
  double.\<close>

theorem calculate_score_formula:
  assumes "py_getitem entry ''rating'' = Inr r"
    and "py_getitem entry ''distance_from_me'' = Inr d"
    and "py_getitem entry ''id'' = Inr i"
    and "is_numeric r" and "is_numeric d" and "is_numeric i"
  shows "calculate_score libm_sin entry = eval libm_sin (spec_score r d i)"
  using assms by (simp add: calculate_score_def spec_score_def seq_assoc)

theorem calculate_score_formula_witness:
  "py_getitem example_a ''rating'' = Inr (PInt 4) \<and>
   py_getitem example_a ''distance_from_me'' = Inr (PInt 2) \<and>
   py_getitem example_a ''id'' = Inr (PInt 1) \<and>
   is_numeric (PInt 4) \<and> is_numeric (PInt 2) \<and> is_numeric (PInt 1) \<and>
   calculate_score sin_sample example_a = eval sin_sample (spec_score (PInt 4) (PInt 2) (PInt 1)) \<and>
   calculate_score sin_sample example_a = Inr (PFloat 0x40445851EB851EB8)"
proof -
  have h: "py_getitem example_a ''rating'' = Inr (PInt 4)"
    "py_getitem example_a ''distance_from_me'' = Inr (PInt 2)"
    "py_getitem example_a ''id'' = Inr (PInt 1)"
    "is_numeric (PInt 4)" "is_numeric (PInt 2)" "is_numeric (PInt 1)"
    by (simp_all add: example_a_def is_numeric_def)
  have v: "calculate_score sin_sample example_a = Inr (PFloat 0x40445851EB851EB8)"
    by code_simp
  show ?thesis
    using calculate_score_formula [OF h, of sin_sample] h v by simp
qed

text \<open>C9. The score is a function of the three fields \<open>rating\<close>, \<open>distance_from_me\<close> and
  \<open>id\<close>: two records that agree on them (each present with the same value, or absent
  in both) get the same result, whatever else they hold.\<close>

theorem calculate_score_input_fields:
  assumes "py_getitem a ''rating'' = py_getitem b ''rating''"
    and "py_getitem a ''distance_from_me'' = py_getitem b ''distance_from_me''"
    and "py_getitem a ''id'' = py_getitem b ''id''"
  shows "calculate_score libm_sin a = calculate_score libm_sin b"
  using assms by (simp add: calculate_score_def)

theorem calculate_score_input_fields_witness:
  "py_getitem example_a ''rating'' = py_getitem example_a_renamed ''rating'' \<and>
   py_getitem example_a ''distance_from_me'' = py_getitem example_a_renamed ''distance_from_me'' \<and>
   py_getitem example_a ''id'' = py_getitem example_a_renamed ''id'' \<and>
   example_a \<noteq> example_a_renamed \<and>
   calculate_score sin_sample example_a = calculate_score sin_sample example_a_renamed"
proof -
  have h: "py_getitem example_a ''rating'' = py_getitem example_a_renamed ''rating''"
    "py_getitem example_a ''distance_from_me'' = py_getitem example_a_renamed ''distance_from_me''"
    "py_getitem example_a ''id'' = py_getitem example_a_renamed ''id''"
    by (simp_all add: example_a_def example_a_renamed_def)
  have d: "example_a \<noteq> example_a_renamed"
    by (simp add: example_a_def example_a_renamed_def)
  show ?thesis
    using calculate_score_input_fields [OF h, of sin_sample] h d by simp
qed

lemma calculate_score_quotient:
  "calculate_score libm_sin entry = seq (score_quotient libm_sin entry) py_round2"
  by (simp add: calculate_score_def score_quotient_def seq_assoc)

lemma num_truediv_float: "num_truediv a b = Inr v \<Longrightarrow> \<exists>q. v = PFloat q"
  by (cases a; cases b) (auto simp: Let_def seq_eq_Inr split: if_splits)

lemma py_truediv_float: "py_truediv a b = Inr v \<Longrightarrow> \<exists>q. v = PFloat q"
  by (auto simp: py_truediv_def dest: num_truediv_float split: option.splits)

lemma score_quotient_float:
  "score_quotient libm_sin entry = Inr v \<Longrightarrow> \<exists>q. v = PFloat q"
  by (auto simp: score_quotient_def seq_eq_Inr dest: py_truediv_float)

text \<open>C5, as the code has it. The score of a record that scores is \<open>round(q, 2)\<close> of
  the quotient \<open>q = score / 100\<close>. When \<open>q\<close> is finite the score is finite: it is the
  double nearest to \<open>n / 100\<close> with the sign of \<open>q\<close>, where \<open>n\<close> is the integer nearest
  to \<open>100 * |q|\<close> taken on the exact binary value of \<open>q\<close>, a tie going to the even \<open>n\<close>.
  When \<open>q\<close> is infinite or NaN the score is \<open>q\<close> itself.\<close>

theorem score_rounding:
  assumes "calculate_score libm_sin entry = Inr v"
  shows "\<exists>q s. score_quotient libm_sin entry = Inr (PFloat q) \<and> v = PFloat s \<and>
           (if d_is_finite q
            then d_is_finite s \<and>
                 (\<exists>n. s = d_make (d_sign q) (mag_of_rat (of_int n / 100)) \<and>
                      \<bar>of_int n - \<bar>d_val q\<bar> * 100\<bar> \<le> 1 / 2 \<and>
                      (\<bar>of_int n - \<bar>d_val q\<bar> * 100\<bar> = 1 / 2 \<longrightarrow> even n))
            else s = q)"
proof -
  from assms obtain u where u: "score_quotient libm_sin entry = Inr u" "py_round2 u = Inr v"
    by (auto simp: calculate_score_quotient seq_eq_Inr)
  from score_quotient_float [OF u(1)] obtain q where q: "u = PFloat q" by blast
  from u(2) q obtain s where s: "float_round2 q = Inr s" "v = PFloat s"
    by (auto simp: py_round2_def seq_eq_Inr)
  show ?thesis
  proof (cases "d_is_finite q")
    case True
    let ?n = "round_half_even (\<bar>d_val q\<bar> * 100)"
    from float_round2_finite [OF True] s(1)
    have r: "s = d_make (d_sign q) (mag_of_rat (of_int ?n / 100))" "d_is_finite s"
      by simp_all
    have "\<bar>of_int ?n - \<bar>d_val q\<bar> * 100\<bar> \<le> 1 / 2"
      using round_half_even_bounds [of "\<bar>d_val q\<bar> * 100"] by linarith
    moreover have "\<bar>of_int ?n - \<bar>d_val q\<bar> * 100\<bar> = 1 / 2 \<longrightarrow> even ?n"
      using round_half_even_tie [of "\<bar>d_val q\<bar> * 100"] by blast
    ultimately show ?thesis
      using True u(1) q s(2) r by auto
  next
    case False
    then have "s = q" using s(1) by (simp add: float_round2_def)
    then show ?thesis using False u(1) q s(2) by simp
  qed
qed

theorem score_rounding_witness:
  "calculate_score sin_sample example_tie = Inr (PFloat 0x403D9EB851EB851F) \<and>
   (\<exists>q s. score_quotient sin_sample example_tie = Inr (PFloat q) \<and>
      PFloat 0x403D9EB851EB851F = PFloat s \<and>
      (if d_is_finite q
       then d_is_finite s \<and>
            (\<exists>n. s = d_make (d_sign q) (mag_of_rat (of_int n / 100)) \<and>
                 \<bar>of_int n - \<bar>d_val q\<bar> * 100\<bar> \<le> 1 / 2 \<and>
                 (\<bar>of_int n - \<bar>d_val q\<bar> * 100\<bar> = 1 / 2 \<longrightarrow> even n))
       else s = q))"
proof -
  have h: "calculate_score sin_sample example_tie = Inr (PFloat 0x403D9EB851EB851F)"
    by code_simp
  show ?thesis
    using score_rounding [OF h] h by simp
qed

text \<open>C5, as the claim has it, fails twice. A rating of \<open>1e308\<close> gives the score
  \<open>inf\<close>, which is not finite. And for rating 3, distance 0.76 and id 0 the quotient
  is exactly 29.625 = 237/8: \<open>round\<close> returns 29.62, rounding half up would give
  29.63.\<close>

theorem score_rounding_counterexample:
  "calculate_score sin_sample example_huge = Inr (PFloat 0x7FF0000000000000) \<and>
   \<not> d_is_finite 0x7FF0000000000000 \<and>
   score_quotient sin_sample example_tie = Inr (PFloat 0x403DA00000000000) \<and>
   d_val 0x403DA00000000000 = 237 / 8 \<and>
   calculate_score sin_sample example_tie = Inr (PFloat 0x403D9EB851EB851F) \<and>
   half_up_round2 0x403DA00000000000 = 0x403DA147AE147AE1 \<and>
   (0x403D9EB851EB851F :: double) \<noteq> 0x403DA147AE147AE1"
proof -
  have "calculate_score sin_sample example_huge = Inr (PFloat 0x7FF0000000000000)"
    by code_simp
  moreover have "\<not> d_is_finite 0x7FF0000000000000"
    by code_simp
  moreover have "score_quotient sin_sample example_tie = Inr (PFloat 0x403DA00000000000)"
    by code_simp
  moreover have "d_val 0x403DA00000000000 = 237 / 8"
    by code_simp
  moreover have "calculate_score sin_sample example_tie = Inr (PFloat 0x403D9EB851EB851F)"
    by code_simp
  moreover have "half_up_round2 0x403DA00000000000 = 0x403DA147AE147AE1"
    by code_simp
  moreover have "(0x403D9EB851EB851F :: double) \<noteq> 0x403DA147AE147AE1"
    by simp
  ultimately show ?thesis by blast
qed

subsection \<open>The loader\<close>






subsection \<open>The scoring pass and the projection\<close>

lemma py_setitem_frame:
  assumes "py_setitem a k v = Inr b"
  shows "py_getitem b k = Inr v" "k' \<noteq> k \<Longrightarrow> py_getitem b k' = py_getitem a k'"
  using assms by (cases a; auto simp: update_conv')+

lemma scoring_pass_frame:
  assumes "scoring_pass libm_sin entries = (evs, Inr scored)"
  shows "list_all2 (scored_from libm_sin) entries scored"
  using assms
proof (induction entries arbitrary: evs scored)
  case Nil
  then show ?case by simp
next
  case (Cons a rest)
  obtain evs' r' where rest: "scoring_pass libm_sin rest = (evs', r')"
    by (cases "scoring_pass libm_sin rest") auto
  show ?case
  proof (cases "calculate_score libm_sin a")
    case (Inr v)
    show ?thesis
    proof (cases "py_setitem a ''score'' v")
      case (Inl e)
      then have "calculate_score libm_sin a = Inl TypeError"
        by (cases a) (simp_all add: calculate_score_def)
      with Inr show ?thesis by simp
    next
      case b: (Inr b)
      with Inr Cons.prems rest obtain rest' where r: "r' = Inr rest'" "scored = b # rest'"
        by (auto split: sum.splits)
      have "scored_from libm_sin a b"
        using py_setitem_frame [OF b] Inr by (simp add: scored_from_def)
      then show ?thesis
        using Cons.IH [of evs' rest'] rest r by simp
    qed
  next
    case (Inl e)
    with Cons.prems rest obtain rest' where r: "r' = Inr rest'" "scored = a # rest'"
      by (auto split: sum.splits exn.splits)
    have "scored_from libm_sin a a"
      using Inl by (simp add: scored_from_def)
    then show ?thesis
      using Cons.IH [of evs' rest'] rest r by simp
  qed
qed

lemma output_entry_copies:
  assumes "output_entry x = Inr out"
  shows "dict_keys out = output_fields \<and> (\<forall>k\<in>set output_fields. py_getitem out k = py_getitem x k)"
  using assms
  by (auto simp: output_entry_def seq_eq_Inr dict_keys_def output_fields_def)

text \<open>C10, as the code has it. The scoring pass changes nothing in a record but the
  key \<open>score\<close>: every other key keeps its value (or its absence), a record that scores
  holds the computed score under \<open>score\<close>, added or put in the place of a \<open>score\<close> it
  came with, and a record that does not score is left as it was. An output record has
  exactly the five output fields, each with the value the ranked record has.\<close>

theorem scoring_frame:
  assumes "scoring_pass libm_sin entries = (evs, Inr scored)"
    and "output_entry x = Inr out"
  shows "list_all2 (scored_from libm_sin) entries scored \<and>
         dict_keys out = output_fields \<and>
         list_all (\<lambda>k. py_getitem out k = py_getitem x k) output_fields"
  using scoring_pass_frame [OF assms(1)] output_entry_copies [OF assms(2)]
  by (simp add: list_all_iff)

theorem scoring_frame_witness:
  "scoring_pass sin_sample [example_a, example_no_rating] =
     ([Print (MissingField ''rating'' example_no_rating)],
      Inr [example_a_scored, example_no_rating]) \<and>
   output_entry example_a_scored = Inr example_a_scored \<and>
   list_all2 (scored_from sin_sample) [example_a, example_no_rating]
     [example_a_scored, example_no_rating] \<and>
   dict_keys example_a_scored = output_fields \<and>
   list_all (\<lambda>k. py_getitem example_a_scored k = py_getitem example_a_scored k) output_fields"
proof -
  have h1: "scoring_pass sin_sample [example_a, example_no_rating] =
     ([Print (MissingField ''rating'' example_no_rating)],
      Inr [example_a_scored, example_no_rating])"
    by code_simp
  have h2: "output_entry example_a_scored = Inr example_a_scored"
    by (simp add: output_entry_def example_a_scored_def)
  show ?thesis
    using scoring_frame [OF h1 h2] h1 h2 by simp
qed

text \<open>C10, as the claim has it, fails on a record that comes with a \<open>score\<close>: the
  field is there before the pass and does not keep its value.\<close>

theorem scoring_overwrites_score:
  "py_getitem example_with_score ''score'' = Inr (PInt 99) \<and>
   scoring_pass sin_sample [example_with_score] = ([], Inr [example_a_scored]) \<and>
   py_getitem example_a_scored ''score'' = Inr (PFloat 0x40445851EB851EB8) \<and>
   py_getitem example_a_scored ''score'' \<noteq> py_getitem example_with_score ''score''"
proof -
  have "py_getitem example_with_score ''score'' = Inr (PInt 99)"
    by (simp add: example_with_score_def)
  moreover have "scoring_pass sin_sample [example_with_score] = ([], Inr [example_a_scored])"
    by code_simp
  moreover have "py_getitem example_a_scored ''score'' = Inr (PFloat 0x40445851EB851EB8)"
    by (simp add: example_a_scored_def)
  ultimately show ?thesis by simp
qed

subsection \<open>The ranker\<close>

lemma flip_less [simp]: "flip a < flip b \<longleftrightarrow> b < a"
  by (cases a; cases b) (auto simp: flip_def less_prod_def)

lemma flip_eq [simp]: "flip a = flip b \<longleftrightarrow> a = b"
  by (cases a; cases b) (auto simp: flip_def)

lemma lex4_less:
  fixes a1 :: "'a::linorder" and a2 :: "'b::linorder" and a3 :: "'c::linorder"
    and a4 :: "'d::linorder"
  shows "(a1, a2, a3, a4) < (b1, b2, b3, b4) \<longleftrightarrow>
    a1 < b1 \<or> (a1 = b1 \<and> (a2 < b2 \<or> (a2 = b2 \<and> (a3 < b3 \<or> (a3 = b3 \<and> a4 < b4)))))"
  by (auto simp: less_prod_def less_eq_prod_def)

lemma rank_tuple_less: "rank_tuple a < rank_tuple b \<longleftrightarrow> ranks_before a b"
  unfolding rank_tuple_def ranks_before_def lex4_less flip_less flip_eq
  by (rule refl)

lemma rank_tuple_eq: "rank_tuple a = rank_tuple b \<longleftrightarrow> same_rank a b"
  by (auto simp: rank_tuple_def same_rank_def)

lemma rank_tuple_le: "rank_tuple a \<le> rank_tuple b \<longleftrightarrow> ranks_before a b \<or> same_rank a b"
  unfolding order_le_less rank_tuple_less rank_tuple_eq by (rule refl)

lemma py_eq_numbers:
  "as_num a = Some x \<Longrightarrow> as_num b = Some y \<Longrightarrow> py_eq a b = num_eq x y"
  by (cases a; cases b) auto

lemma py_lt_numbers:
  "as_num a = Some x \<Longrightarrow> as_num b = Some y \<Longrightarrow> py_lt a b = Inr (num_lt x y)"
  by (cases a; cases b) auto

lemma py_neg_number:
  assumes "as_num v = Some n" "\<not> num_is_nan n"
  shows "\<exists>k m. py_neg v = Inr k \<and> as_num k = Some m \<and>
             \<not> num_is_nan m \<and> num_ord m = flip (num_ord n)"
proof (cases n)
  case (NInt i)
  then show ?thesis using assms
    by (intro exI [of _ "PInt (- i)"] exI [of _ "NInt (- i)"]) (simp add: py_neg_def flip_def)
next
  case (NFloat x)
  then show ?thesis using assms
    by (intro exI [of _ "PFloat (d_neg x)"] exI [of _ "NFloat (d_neg x)"])
      (simp add: py_neg_def flip_def)
qed

lemma ranking_key_scored:
  assumes "rankable_record x"
  shows "ranking_key x = Inr (the_key x) \<and> key_shape x (the_key x)"
proof -
  from assms obtain kvs s r d n where x: "x = PDict kvs"
    and f: "map_of kvs ''score'' = Some s" "map_of kvs ''rating'' = Some r"
      "map_of kvs ''distance_from_me'' = Some d" "map_of kvs ''restaurant_name'' = Some (PStr n)"
    and c: "comparable_number s" "comparable_number r" "comparable_number d"
    by (auto simp: rankable_record_def split: pyval.splits option.splits)
  from c obtain ns nr nd where n: "as_num s = Some ns" "\<not> num_is_nan ns"
    "as_num r = Some nr" "\<not> num_is_nan nr" "as_num d = Some nd" "\<not> num_is_nan nd"
    by (auto simp: comparable_number_def split: option.splits)
  from py_neg_number [OF n(1,2)] obtain k1 m1 where k1: "py_neg s = Inr k1"
    "as_num k1 = Some m1" "\<not> num_is_nan m1" "num_ord m1 = flip (num_ord ns)" by blast
  from py_neg_number [OF n(3,4)] obtain k2 m2 where k2: "py_neg r = Inr k2"
    "as_num k2 = Some m2" "\<not> num_is_nan m2" "num_ord m2 = flip (num_ord nr)" by blast
  have rk: "ranking_key x = Inr [k1, k2, d, PStr n]"
    using x f k1(1) k2(1) by (simp add: ranking_key_def)
  have nm: "name_at x = n" "number_at x ''score'' = num_ord ns"
    "number_at x ''rating'' = num_ord nr" "number_at x ''distance_from_me'' = num_ord nd"
    using x f n by (simp_all add: name_at_def number_at_def)
  have "key_shape x [k1, k2, d, PStr n]"
    unfolding key_shape_def using k1 k2 n nm by auto
  with rk show ?thesis by (simp add: the_key_def)
qed

lemma seq_lt_keys:
  assumes "key_shape x kx" "key_shape y ky"
  shows "seq_lt kx ky = Inr (rank_tuple x < rank_tuple y)"
proof -
  from assms(1) obtain a1 a2 a3 m1 m2 m3 where a: "kx = [a1, a2, a3, PStr (name_at x)]"
    "as_num a1 = Some m1" "\<not> num_is_nan m1" "num_ord m1 = flip (number_at x ''score'')"
    "as_num a2 = Some m2" "\<not> num_is_nan m2" "num_ord m2 = flip (number_at x ''rating'')"
    "as_num a3 = Some m3" "\<not> num_is_nan m3" "num_ord m3 = number_at x ''distance_from_me''"
    unfolding key_shape_def by blast
  from assms(2) obtain b1 b2 b3 l1 l2 l3 where b: "ky = [b1, b2, b3, PStr (name_at y)]"
    "as_num b1 = Some l1" "\<not> num_is_nan l1" "num_ord l1 = flip (number_at y ''score'')"
    "as_num b2 = Some l2" "\<not> num_is_nan l2" "num_ord l2 = flip (number_at y ''rating'')"
    "as_num b3 = Some l3" "\<not> num_is_nan l3" "num_ord l3 = number_at y ''distance_from_me''"
    unfolding key_shape_def by blast
  have e: "py_eq a1 b1 = (num_ord m1 = num_ord l1)" "py_eq a2 b2 = (num_ord m2 = num_ord l2)"
    "py_eq a3 b3 = (num_ord m3 = num_ord l3)"
    using a b by (simp_all add: py_eq_numbers num_eq_def)
  have l: "py_lt a1 b1 = Inr (num_ord m1 < num_ord l1)" "py_lt a2 b2 = Inr (num_ord m2 < num_ord l2)"
    "py_lt a3 b3 = Inr (num_ord m3 < num_ord l3)"
    using a b by (simp_all add: py_lt_numbers num_lt_def)
  have s: "py_eq (PStr (name_at x)) (PStr (name_at y)) = (name_at x = name_at y)"
    by simp
  have "seq_lt kx ky =
    Inr ((num_ord m1, num_ord m2, num_ord m3, name_at x) < (num_ord l1, num_ord l2, num_ord l3, name_at y))"
    unfolding a(1) b(1) lex4_less by (simp add: e l s)
  then show ?thesis
    by (simp only: rank_tuple_def a b)
qed

lemma run_ascending_total:
  fixes f :: "keyed \<Rightarrow> 'k::linorder"
  assumes "\<And>p q. p \<in> set (prev # qs) \<Longrightarrow> q \<in> set (prev # qs) \<Longrightarrow>
             seq_lt (fst p) (fst q) = Inr (f p < f q)"
  shows "\<exists>n. run_ascending prev qs = Inr n \<and> n \<le> length qs \<and>
           sorted (map f (prev # take n qs))"
  using assms
proof (induction qs arbitrary: prev)
  case Nil
  then show ?case by simp
next
  case (Cons q qs)
  have cmp: "seq_lt (fst q) (fst prev) = Inr (f q < f prev)"
    using Cons.prems by simp
  show ?case
  proof (cases "f q < f prev")
    case True
    then show ?thesis using cmp by simp
  next
    case False
    have "\<And>x y. x \<in> set (q # qs) \<Longrightarrow> y \<in> set (q # qs) \<Longrightarrow>
        seq_lt (fst x) (fst y) = Inr (f x < f y)"
      using Cons.prems by simp
    from Cons.IH [OF this] obtain n where n: "run_ascending q qs = Inr n" "n \<le> length qs"
      "sorted (map f (q # take n qs))" by blast
    have "run_ascending prev (q # qs) = Inr (Suc n)"
      using cmp False n(1) by simp
    moreover have "sorted (map f (prev # take (Suc n) (q # qs)))"
      using n(3) False by auto
    ultimately show ?thesis using n(2) by auto
  qed
qed

lemma run_descending_total:
  fixes f :: "keyed \<Rightarrow> 'k::linorder"
  assumes "\<And>p q. p \<in> set (prev # qs) \<Longrightarrow> q \<in> set (prev # qs) \<Longrightarrow>
             seq_lt (fst p) (fst q) = Inr (f p < f q)"
  shows "\<exists>n. run_descending prev qs = Inr n \<and> n \<le> length qs \<and>
           sorted_wrt (\<lambda>a b. f b < f a) (prev # take n qs)"
  using assms
proof (induction qs arbitrary: prev)
  case Nil
  then show ?case by simp
next
  case (Cons q qs)
  have cmp: "seq_lt (fst q) (fst prev) = Inr (f q < f prev)"
    using Cons.prems by simp
  show ?case
  proof (cases "f q < f prev")
    case False
    then show ?thesis using cmp by simp
  next
    case True
    have "\<And>x y. x \<in> set (q # qs) \<Longrightarrow> y \<in> set (q # qs) \<Longrightarrow>
        seq_lt (fst x) (fst y) = Inr (f x < f y)"
      using Cons.prems by simp
    from Cons.IH [OF this] obtain n where n: "run_descending q qs = Inr n" "n \<le> length qs"
      "sorted_wrt (\<lambda>a b. f b < f a) (q # take n qs)" by blast
    have "run_descending prev (q # qs) = Inr (Suc n)"
      using cmp True n(1) by simp
    moreover have "sorted_wrt (\<lambda>a b. f b < f a) (prev # take (Suc n) (q # qs))"
      using n(3) True by auto
    ultimately show ?thesis using n(2) by auto
  qed
qed

lemma count_run_total:
  fixes f :: "keyed \<Rightarrow> 'k::linorder"
  assumes "\<And>p q. p \<in> set ps \<Longrightarrow> q \<in> set ps \<Longrightarrow> seq_lt (fst p) (fst q) = Inr (f p < f q)"
    and "2 \<le> length ps"
  shows "\<exists>n d. count_run ps = Inr (n, d) \<and> n \<le> length ps \<and>
           (if d then sorted_wrt (\<lambda>a b. f b < f a) (take n ps) else sorted (map f (take n ps)))"
proof -
  from assms(2) obtain p q rest where ps: "ps = p # q # rest"
    by (cases ps; cases "tl ps") auto
  have cmp: "seq_lt (fst q) (fst p) = Inr (f q < f p)"
    using assms(1) ps by simp
  have sub: "\<And>x y. x \<in> set (q # rest) \<Longrightarrow> y \<in> set (q # rest) \<Longrightarrow>
      seq_lt (fst x) (fst y) = Inr (f x < f y)"
    using assms(1) ps by simp
  show ?thesis
  proof (cases "f q < f p")
    case True
    from run_descending_total [of q rest f, OF sub] obtain n where
      n: "run_descending q rest = Inr n" "n \<le> length rest"
      "sorted_wrt (\<lambda>a b. f b < f a) (q # take n rest)" by blast
    have "count_run ps = Inr (n + 2, True)"
      using ps cmp True n(1) by simp
    moreover have "sorted_wrt (\<lambda>a b. f b < f a) (take (n + 2) ps)"
      using ps n(3) True by auto
    ultimately show ?thesis using n(2) ps by auto
  next
    case False
    from run_ascending_total [of q rest f, OF sub] obtain n where
      n: "run_ascending q rest = Inr n" "n \<le> length rest"
      "sorted (map f (q # take n rest))" by blast
    have "count_run ps = Inr (n + 2, False)"
      using ps cmp False n(1) by simp
    moreover have "sorted (map f (take (n + 2) ps))"
      using ps n(3) False by auto
    ultimately show ?thesis using n(2) ps by auto
  qed
qed

lemma filter_key_distinct:
  "distinct (map f xs) \<Longrightarrow> length (filter (\<lambda>x. f x = k) xs) \<le> 1"
proof (induction xs)
  case Nil
  then show ?case by simp
next
  case (Cons a xs)
  show ?case
  proof (cases "f a = k")
    case True
    with Cons.prems have "k \<notin> f ` set xs" by simp
    then have "\<forall>x\<in>set xs. f x \<noteq> k" by blast
    then have "filter (\<lambda>x. f x = k) xs = []" by (simp add: filter_empty_conv)
    with True show ?thesis by simp
  next
    case False
    with Cons show ?thesis by simp
  qed
qed

lemma descending_run_reversed:
  fixes f :: "keyed \<Rightarrow> 'k::linorder"
  assumes "sorted_wrt (\<lambda>a b. f b < f a) xs"
  shows "sorted (map f (rev xs))" "filter (\<lambda>x. f x = k) (rev xs) = filter (\<lambda>x. f x = k) xs"
proof -
  have "sorted_wrt (\<lambda>a b. f a < f b) (rev xs)"
    using assms by (simp add: sorted_wrt_rev)
  then have s: "sorted_wrt (<) (map f (rev xs))"
    by (simp add: sorted_wrt_map)
  then show "sorted (map f (rev xs))"
    by (simp add: strict_sorted_iff)
  from s have "distinct (map f (rev xs))"
    by (simp add: strict_sorted_iff)
  then have "distinct (map f xs)"
    by (simp add: rev_map [symmetric])
  from filter_key_distinct [OF this, of k] have "length (filter (\<lambda>x. f x = k) xs) \<le> 1" .
  then have "rev (filter (\<lambda>x. f x = k) xs) = filter (\<lambda>x. f x = k) xs"
    by (cases "filter (\<lambda>x. f x = k) xs") auto
  then show "filter (\<lambda>x. f x = k) (rev xs) = filter (\<lambda>x. f x = k) xs"
    by (simp add: rev_filter)
qed

lemma bisect_total:
  fixes f :: "keyed \<Rightarrow> 'k::linorder"
  assumes "\<And>q. q \<in> set a \<Longrightarrow> seq_lt (fst pivot) (fst q) = Inr (f pivot < f q)"
    and "sorted (map f a)"
    and "l \<le> r" and "r \<le> length a"
    and "\<forall>i<l. f (a ! i) \<le> f pivot"
    and "\<forall>i. r \<le> i \<and> i < length a \<longrightarrow> f pivot < f (a ! i)"
  shows "\<exists>m. bisect pivot a l r = Inr m \<and> m \<le> length a \<and>
           (\<forall>i<m. f (a ! i) \<le> f pivot) \<and>
           (\<forall>i. m \<le> i \<and> i < length a \<longrightarrow> f pivot < f (a ! i))"
  using assms
proof (induction pivot a l r rule: bisect.induct)
  case (1 pivot a l r)
  show ?case
  proof (cases "l < r")
    case False
    with "1.prems" have "l = r" by simp
    moreover have "bisect pivot a l r = Inr l"
      using False by (simp add: bisect.simps [of pivot a l r])
    ultimately show ?thesis using "1.prems" by auto
  next
    case True
    define p where "p = l + (r - l) div 2"
    have p: "l \<le> p" "p < r" using True by (simp_all add: p_def)
    then have pl: "p < length a" using "1.prems"(4) by simp
    have cmp: "seq_lt (fst pivot) (fst (a ! p)) = Inr (f pivot < f (a ! p))"
      using "1.prems"(1) pl by simp
    have mono: "i \<le> j \<Longrightarrow> j < length a \<Longrightarrow> f (a ! i) \<le> f (a ! j)" for i j
      using "1.prems"(2) sorted_nth_mono [of "map f a" i j] by simp
    show ?thesis
    proof (cases "f pivot < f (a ! p)")
      case less: True
      have step: "bisect pivot a l r = bisect pivot a l p"
        using True cmp less by (simp add: bisect.simps [of pivot a l r] p_def Let_def)
      have up: "\<forall>i. p \<le> i \<and> i < length a \<longrightarrow> f pivot < f (a ! i)"
        using less mono by (meson less_le_trans)
      have pl': "p \<le> length a" using pl by simp
      show ?thesis
        unfolding step
        by (rule "1.IH"(1) [OF True p_def TrueI "1.prems"(1) "1.prems"(2) p(1) pl' "1.prems"(5) up])
    next
      case ge: False
      have step: "bisect pivot a l r = bisect pivot a (p + 1) r"
        using True cmp ge by (simp add: bisect.simps [of pivot a l r] p_def Let_def)
      have lo: "\<forall>i<p + 1. f (a ! i) \<le> f pivot"
      proof (intro allI impI)
        fix i assume "i < p + 1"
        then have "f (a ! i) \<le> f (a ! p)" using mono [of i p] pl by simp
        with ge show "f (a ! i) \<le> f pivot" by simp
      qed
      have pr: "p + 1 \<le> r" using p(2) by simp
      show ?thesis
        unfolding step
        by (rule "1.IH"(2) [OF True p_def not_False_eq_True [THEN iffD2, OF TrueI]
              "1.prems"(1) "1.prems"(2) pr "1.prems"(4) lo "1.prems"(6)])
    qed
  qed
qed

lemma binary_insert_total:
  fixes f :: "keyed \<Rightarrow> 'k::linorder"
  assumes "\<And>q. q \<in> set a \<Longrightarrow> seq_lt (fst pivot) (fst q) = Inr (f pivot < f q)"
    and "sorted (map f a)"
  shows "\<exists>r. binary_insert pivot a = Inr r \<and> mset r = add_mset pivot (mset a) \<and>
           sorted (map f r) \<and>
           (\<forall>k. filter (\<lambda>q. f q = k) r =
                filter (\<lambda>q. f q = k) a @ filter (\<lambda>q. f q = k) [pivot])"
proof -
  have "\<exists>m. bisect pivot a 0 (length a) = Inr m \<and> m \<le> length a \<and>
      (\<forall>i<m. f (a ! i) \<le> f pivot) \<and>
      (\<forall>i. m \<le> i \<and> i < length a \<longrightarrow> f pivot < f (a ! i))"
    by (rule bisect_total [OF assms]) auto
  then obtain m where
    m: "bisect pivot a 0 (length a) = Inr m" "m \<le> length a"
    "\<forall>i<m. f (a ! i) \<le> f pivot"
    "\<forall>i. m \<le> i \<and> i < length a \<longrightarrow> f pivot < f (a ! i)"
    by blast
  let ?r = "take m a @ pivot # drop m a"
  have res: "binary_insert pivot a = Inr ?r"
    using m(1) by (simp add: binary_insert_def)
  have ms: "mset ?r = add_mset pivot (mset a)"
    by (metis append_take_drop_id mset.simps(2) mset_append union_mset_add_mset_right)
  have lo: "f x \<le> f pivot" if "x \<in> set (take m a)" for x
  proof -
    from that obtain i where "i < length (take m a)" "x = take m a ! i"
      by (auto simp: in_set_conv_nth)
    then show ?thesis using m(2,3) by simp
  qed
  have hi: "f pivot < f x" if "x \<in> set (drop m a)" for x
  proof -
    from that obtain i where "i < length (drop m a)" "x = drop m a ! i"
      by (auto simp: in_set_conv_nth)
    then show ?thesis using m(2,4) by simp
  qed
  have st: "sorted (map f (take m a))" "sorted (map f (drop m a))"
    using assms(2) by (simp_all add: take_map [symmetric] drop_map [symmetric])
  have lh: "f x \<le> f y" if "x \<in> set (take m a)" "y \<in> set (drop m a)" for x y
    using lo [OF that(1)] hi [OF that(2)] by simp
  have so: "sorted (map f ?r)"
    using st lo hi lh by (simp add: sorted_append less_imp_le)
  have fl: "filter (\<lambda>q. f q = k) ?r =
      filter (\<lambda>q. f q = k) a @ filter (\<lambda>q. f q = k) [pivot]" for k
  proof (cases "f pivot = k")
    case True
    then have "\<forall>x\<in>set (drop m a). f x \<noteq> k" using hi by fastforce
    then have e: "filter (\<lambda>q. f q = k) (drop m a) = []" by (simp add: filter_empty_conv)
    have "filter (\<lambda>q. f q = k) a =
        filter (\<lambda>q. f q = k) (take m a) @ filter (\<lambda>q. f q = k) (drop m a)"
      by (metis append_take_drop_id filter_append)
    with e True show ?thesis by simp
  next
    case False
    have "filter (\<lambda>q. f q = k) a =
        filter (\<lambda>q. f q = k) (take m a) @ filter (\<lambda>q. f q = k) (drop m a)"
      by (metis append_take_drop_id filter_append)
    with False show ?thesis by simp
  qed
  show ?thesis using res ms so fl by blast
qed

lemma binarysort_total:
  fixes f :: "keyed \<Rightarrow> 'k::linorder"
  assumes "\<And>p q. p \<in> set acc \<union> set ps \<Longrightarrow> q \<in> set acc \<union> set ps \<Longrightarrow>
             seq_lt (fst p) (fst q) = Inr (f p < f q)"
    and "sorted (map f acc)"
  shows "\<exists>r. binarysort acc ps = Inr r \<and> mset r = mset acc + mset ps \<and>
           sorted (map f r) \<and>
           (\<forall>k. filter (\<lambda>q. f q = k) r = filter (\<lambda>q. f q = k) acc @ filter (\<lambda>q. f q = k) ps)"
  using assms
proof (induction ps arbitrary: acc)
  case Nil
  then show ?case by simp
next
  case (Cons p ps)
  have "\<And>q. q \<in> set acc \<Longrightarrow> seq_lt (fst p) (fst q) = Inr (f p < f q)"
    using Cons.prems(1) by simp
  from binary_insert_total [of acc p f, OF this Cons.prems(2)] obtain a where
    a: "binary_insert p acc = Inr a" "mset a = add_mset p (mset acc)" "sorted (map f a)"
    "\<And>k. filter (\<lambda>q. f q = k) a = filter (\<lambda>q. f q = k) acc @ filter (\<lambda>q. f q = k) [p]"
    by blast
  have sa: "set a = insert p (set acc)"
    using a(2) by (metis set_mset_add_mset_insert set_mset_mset)
  have "\<And>x y. x \<in> set a \<union> set ps \<Longrightarrow> y \<in> set a \<union> set ps \<Longrightarrow>
      seq_lt (fst x) (fst y) = Inr (f x < f y)"
    using Cons.prems(1) sa by auto
  from Cons.IH [of a, OF this a(3)] obtain r where r: "binarysort a ps = Inr r"
    "mset r = mset a + mset ps" "sorted (map f r)"
    "\<And>k. filter (\<lambda>q. f q = k) r = filter (\<lambda>q. f q = k) a @ filter (\<lambda>q. f q = k) ps"
    by blast
  have "binarysort acc (p # ps) = Inr r"
    using a(1) r(1) by simp
  moreover have "mset r = mset acc + mset (p # ps)"
    using a(2) r(2) by simp
  moreover have "filter (\<lambda>q. f q = k) r =
      filter (\<lambda>q. f q = k) acc @ filter (\<lambda>q. f q = k) (p # ps)" for k
    using a(4) [of k] r(4) [of k] by simp
  ultimately show ?case using r(3) by blast
qed

lemma list_sort_total:
  fixes f :: "keyed \<Rightarrow> 'k::linorder"
  assumes "\<And>p q. p \<in> set ps \<Longrightarrow> q \<in> set ps \<Longrightarrow> seq_lt (fst p) (fst q) = Inr (f p < f q)"
  shows "\<exists>r. list_sort ps = Inr r \<and> mset r = mset ps \<and> sorted (map f r) \<and>
           (\<forall>k. filter (\<lambda>q. f q = k) r = filter (\<lambda>q. f q = k) ps)"
proof (cases "length ps < 2")
  case True
  then have "sorted (map f ps)"
    by (cases ps; cases "tl ps") auto
  with True show ?thesis by (simp add: list_sort_def)
next
  case False
  then have len: "2 \<le> length ps" by simp
  from count_run_total [of ps f, OF assms len] obtain n d where
    nd: "count_run ps = Inr (n, d)" "n \<le> length ps"
    "if d then sorted_wrt (\<lambda>a b. f b < f a) (take n ps) else sorted (map f (take n ps))"
    by blast
  let ?run = "if d then rev (take n ps) else take n ps"
  have run: "sorted (map f ?run)" "mset ?run = mset (take n ps)"
    "\<And>k. filter (\<lambda>q. f q = k) ?run = filter (\<lambda>q. f q = k) (take n ps)"
    using nd(3) descending_run_reversed [of f "take n ps"] by (auto split: if_splits)
  have sub: "set ?run \<union> set (drop n ps) \<subseteq> set ps"
    by (auto dest: in_set_takeD in_set_dropD)
  have "\<And>p q. p \<in> set ?run \<union> set (drop n ps) \<Longrightarrow> q \<in> set ?run \<union> set (drop n ps) \<Longrightarrow>
      seq_lt (fst p) (fst q) = Inr (f p < f q)"
    using assms sub by blast
  from binarysort_total [of ?run "drop n ps" f, OF this run(1)] obtain r where
    r: "binarysort ?run (drop n ps) = Inr r" "mset r = mset ?run + mset (drop n ps)"
    "sorted (map f r)"
    "\<And>k. filter (\<lambda>q. f q = k) r =
       filter (\<lambda>q. f q = k) ?run @ filter (\<lambda>q. f q = k) (drop n ps)"
    by blast
  have res: "list_sort ps = Inr r"
    using False nd(1) r(1) by (simp add: list_sort_def)
  have ms: "mset r = mset ps"
    using r(2) run(2) by (metis append_take_drop_id mset_append)
  have fl: "filter (\<lambda>q. f q = k) r = filter (\<lambda>q. f q = k) ps" for k
    using r(4) [of k] run(3) [of k] by (metis append_take_drop_id filter_append)
  show ?thesis using res ms r(3) fl by blast
qed

lemma map_exn_total:
  "(\<And>x. x \<in> set xs \<Longrightarrow> g x = Inr (h x)) \<Longrightarrow> map_exn g xs = Inr (map h xs)"
  by (induction xs) simp_all

lemma py_sorted_scored:
  assumes "\<forall>x\<in>set xs. rankable_record x"
  shows "\<exists>ys. py_sorted ranking_key xs = Inr ys \<and> mset ys = mset xs \<and>
           sorted (map rank_tuple ys) \<and>
           (\<forall>k. filter (\<lambda>y. rank_tuple y = k) ys = filter (\<lambda>x. rank_tuple x = k) xs)"
proof -
  let ?ps = "map (\<lambda>x. (the_key x, x)) xs"
  let ?f = "\<lambda>p :: pyval list \<times> pyval. rank_tuple (snd p)"
  have keys: "map_exn (\<lambda>x. seq (ranking_key x) (\<lambda>k. Inr (k, x))) xs = Inr ?ps"
    using assms by (intro map_exn_total) (simp add: ranking_key_scored)
  have cmp: "seq_lt (fst p) (fst q) = Inr (?f p < ?f q)"
    if "p \<in> set ?ps" "q \<in> set ?ps" for p q
  proof -
    from that obtain x y where "x \<in> set xs" "p = (the_key x, x)" "y \<in> set xs" "q = (the_key y, y)"
      by auto
    then show ?thesis
      using assms seq_lt_keys [of x "the_key x" y "the_key y"] ranking_key_scored by simp
  qed
  from list_sort_total [of ?ps ?f, OF cmp] obtain r where r: "list_sort ?ps = Inr r"
    "mset r = mset ?ps" "sorted (map ?f r)"
    "\<And>k. filter (\<lambda>q. ?f q = k) r = filter (\<lambda>q. ?f q = k) ?ps"
    by auto
  have res: "py_sorted ranking_key xs = Inr (map snd r)"
    using keys r(1) by (simp add: py_sorted_def)
  have "mset (map snd r) = image_mset snd (mset ?ps)"
    using r(2) by (metis mset_map)
  then have ms: "mset (map snd r) = mset xs"
    by (simp add: image_mset.compositionality comp_def)
  have so: "sorted (map rank_tuple (map snd r))"
    using r(3) by (simp add: comp_def)
  have st: "filter (\<lambda>y. rank_tuple y = k) (map snd r) = filter (\<lambda>x. rank_tuple x = k) xs" for k
  proof -
    have "filter (\<lambda>y. rank_tuple y = k) (map snd r) = map snd (filter (\<lambda>q. ?f q = k) r)"
      by (simp add: filter_map comp_def)
    also have "\<dots> = map snd (filter (\<lambda>q. ?f q = k) ?ps)"
      by (simp only: r(4))
    also have "\<dots> = filter (\<lambda>x. rank_tuple x = k) xs"
      by (simp add: filter_map comp_def)
    finally show ?thesis .
  qed
  show ?thesis
    using res ms so st by blast
qed

text \<open>C3, amended. On records none of whose \<open>score\<close>, \<open>rating\<close> and \<open>distance_from_me\<close>
  is NaN the sort succeeds, its result is a rearrangement of the input in which every
  record ranks before, or ties with, every later one in the composite order, and the
  ranker returns the first ten records of it (all of them when there are fewer).\<close>

theorem ranker_composite_order:
  assumes "\<forall>x\<in>set xs. rankable_record x"
  shows "\<exists>sorted_data. py_sorted ranking_key xs = Inr sorted_data \<and>
           mset sorted_data = mset xs \<and>
           sorted_wrt (\<lambda>a b. ranks_before a b \<or> same_rank a b) sorted_data \<and>
           top_10_results xs = Inr (take 10 sorted_data)"
proof -
  from py_sorted_scored [OF assms] obtain ys where ys: "py_sorted ranking_key xs = Inr ys"
    "mset ys = mset xs" "sorted (map rank_tuple ys)" by blast
  have "sorted_wrt (\<lambda>a b. ranks_before a b \<or> same_rank a b) ys"
    using ys(3) by (simp add: sorted_map rank_tuple_le)
  then show ?thesis
    using ys(1,2) by (simp add: top_10_results_def)
qed

theorem ranker_composite_order_witness:
  "rankable_record example_a_scored \<and> rankable_record example_b_scored \<and>
   (\<exists>sorted_data. py_sorted ranking_key [example_a_scored, example_b_scored] = Inr sorted_data \<and>
      mset sorted_data = mset [example_a_scored, example_b_scored] \<and>
      sorted_wrt (\<lambda>a b. ranks_before a b \<or> same_rank a b) sorted_data \<and>
      top_10_results [example_a_scored, example_b_scored] = Inr (take 10 sorted_data)) \<and>
   top_10_results [example_a_scored, example_b_scored] = Inr [example_b_scored, example_a_scored]"
proof -
  have h: "rankable_record example_a_scored" "rankable_record example_b_scored"
    by code_simp+
  have v: "top_10_results [example_a_scored, example_b_scored] =
      Inr [example_b_scored, example_a_scored]"
    by code_simp
  show ?thesis
    using ranker_composite_order [of "[example_a_scored, example_b_scored]"] h v by simp
qed

text \<open>C3, as the claim has it, fails on a record whose score is NaN. The input
  \<open>[{"id": 0, "restaurant_name": "L", "rating": 1, "distance_from_me": 0},
    {"id": 1, "restaurant_name": "N", "rating": 1e309, "distance_from_me": 1e309},
    {"id": 2, "restaurant_name": "H", "rating": 2, "distance_from_me": 0}]\<close>
  is scored 10.01, NaN, 21.82 without a message. No key is less than the key before it,
  so the sort takes the list for one ascending run and returns it as it is: the record
  with score 21.82 stands after the one with score 10.01.\<close>

theorem ranker_composite_order_counterexample:
  "scoring_pass sin_sample [example_l, example_n, example_h] = ([], Inr example_three_scored) \<and>
   rankable_record (example_three_scored ! 0) \<and>
   \<not> rankable_record (example_three_scored ! 1) \<and>
   rankable_record (example_three_scored ! 2) \<and>
   top_10_results example_three_scored = Inr example_three_scored \<and>
   ranked_output sin_sample (PList [example_l, example_n, example_h]) =
     ([], Inr (PList example_three_scored)) \<and>
   ranks_before (example_three_scored ! 2) (example_three_scored ! 0) \<and>
   \<not> sorted_wrt (\<lambda>a b. ranks_before a b \<or> same_rank a b) example_three_scored"
proof -
  have sp: "scoring_pass sin_sample [example_l, example_n, example_h] =
      ([], Inr example_three_scored)"
    by code_simp
  have rk: "rankable_record (example_three_scored ! 0)"
    "\<not> rankable_record (example_three_scored ! 1)"
    "rankable_record (example_three_scored ! 2)"
    by code_simp+
  have top: "top_10_results example_three_scored = Inr example_three_scored"
    by code_simp
  have out: "map_exn output_entry example_three_scored = Inr example_three_scored"
    by code_simp
  have ro: "ranked_output sin_sample (PList [example_l, example_n, example_h]) =
      ([], Inr (PList example_three_scored))"
    by (simp add: ranked_output_def seq_def sp top out del: scoring_pass.simps)
  have rb: "ranks_before (example_three_scored ! 2) (example_three_scored ! 0)"
    by code_simp
  have ns: "\<not> sorted_wrt (\<lambda>a b. ranks_before a b \<or> same_rank a b) example_three_scored"
    by code_simp
  show ?thesis
    using sp rk top ro rb ns by blast
qed

text \<open>C4, amended. On a list none of whose records has a NaN for \<open>score\<close>, \<open>rating\<close> or
  \<open>distance_from_me\<close> the sort is stable: the records that tie with a given record \<open>k\<close>
  on all four keys stand in the sorted list in the order they had in the input, and
  those of them that reach the first ten are the first of them in input order.\<close>

theorem ranker_stable:
  assumes "\<forall>x\<in>set xs. rankable_record x"
  shows "\<exists>sorted_data. py_sorted ranking_key xs = Inr sorted_data \<and>
           filter (same_rank k) sorted_data = filter (same_rank k) xs \<and>
           top_10_results xs = Inr (take 10 sorted_data) \<and>
           prefix (filter (same_rank k) (take 10 sorted_data)) (filter (same_rank k) xs)"
proof -
  from py_sorted_scored [OF assms] obtain ys where ys: "py_sorted ranking_key xs = Inr ys"
    "\<And>t. filter (\<lambda>y. rank_tuple y = t) ys = filter (\<lambda>x. rank_tuple x = t) xs" by blast
  have sr: "same_rank k = (\<lambda>y. rank_tuple y = rank_tuple k)"
    by (auto simp: rank_tuple_eq same_rank_def)
  have f: "filter (same_rank k) ys = filter (same_rank k) xs"
    unfolding sr by (rule ys(2))
  have "prefix (filter (same_rank k) (take 10 ys)) (filter (same_rank k) ys)"
    by (metis append_take_drop_id filter_append prefixI)
  then show ?thesis
    using ys(1) f by (simp add: top_10_results_def)
qed

theorem ranker_stable_witness:
  "rankable_record example_a_twin \<and> rankable_record example_b_scored \<and>
   rankable_record example_a_scored \<and>
   same_rank example_a_twin example_a_scored \<and> example_a_twin \<noteq> example_a_scored \<and>
   (\<exists>sorted_data.
      py_sorted ranking_key [example_a_twin, example_b_scored, example_a_scored] = Inr sorted_data \<and>
      filter (same_rank example_a_twin) sorted_data =
        filter (same_rank example_a_twin) [example_a_twin, example_b_scored, example_a_scored] \<and>
      top_10_results [example_a_twin, example_b_scored, example_a_scored] =
        Inr (take 10 sorted_data) \<and>
      prefix (filter (same_rank example_a_twin) (take 10 sorted_data))
        (filter (same_rank example_a_twin) [example_a_twin, example_b_scored, example_a_scored])) \<and>
   top_10_results [example_a_twin, example_b_scored, example_a_scored] =
     Inr [example_b_scored, example_a_twin, example_a_scored]"
proof -
  have h: "rankable_record example_a_twin" "rankable_record example_b_scored"
    "rankable_record example_a_scored"
    by code_simp+
  have s: "same_rank example_a_twin example_a_scored"
    by code_simp
  have d: "example_a_twin \<noteq> example_a_scored"
    by (simp add: example_a_twin_def example_a_scored_def)
  have v: "top_10_results [example_a_twin, example_b_scored, example_a_scored] =
     Inr [example_b_scored, example_a_twin, example_a_scored]"
    by code_simp
  show ?thesis
    using ranker_stable [of "[example_a_twin, example_b_scored, example_a_scored]" example_a_twin]
      h s d v by simp
qed

text \<open>C4, as the claim has it, fails when a record elsewhere in the list has a NaN
  score. In \<open>example_seven\<close> the records with the identifiers 0 and 355 tie on all four
  keys and stand in this order. The first four records are taken for the run, the NaN
  and the record 0 are each inserted at the end, and the bisection for the record 355
  first meets the record with score 10.29, turns left and never meets the record 0: the
  output has 355 before 0.\<close>

theorem ranker_stable_counterexample:
  "scoring_pass sin_sample example_seven = ([], Inr example_seven_scored) \<and>
   top_10_results example_seven_scored = Inr example_seven_ranked \<and>
   ranked_output sin_sample (PList example_seven) = ([], Inr (PList example_seven_ranked)) \<and>
   same_rank (example_seven_scored ! 5) (example_seven_scored ! 6) \<and>
   example_seven_scored ! 5 \<noteq> example_seven_scored ! 6 \<and>
   filter (same_rank (example_seven_scored ! 5)) example_seven_scored =
     [example_seven_scored ! 5, example_seven_scored ! 6] \<and>
   filter (same_rank (example_seven_scored ! 5)) example_seven_ranked =
     [example_seven_scored ! 6, example_seven_scored ! 5]"
proof -
  have sp: "scoring_pass sin_sample example_seven = ([], Inr example_seven_scored)"
    by code_simp
  have top: "top_10_results example_seven_scored = Inr example_seven_ranked"
    by code_simp
  have out: "map_exn output_entry example_seven_ranked = Inr example_seven_ranked"
    by code_simp
  have ro: "ranked_output sin_sample (PList example_seven) = ([], Inr (PList example_seven_ranked))"
    by (simp add: ranked_output_def seq_def sp top out del: scoring_pass.simps)
  have sr: "same_rank (example_seven_scored ! 5) (example_seven_scored ! 6)"
    by code_simp
  have ne: "example_seven_scored ! 5 \<noteq> example_seven_scored ! 6"
    by code_simp
  have f1: "filter (same_rank (example_seven_scored ! 5)) example_seven_scored =
     [example_seven_scored ! 5, example_seven_scored ! 6]"
    by code_simp
  have f2: "filter (same_rank (example_seven_scored ! 5)) example_seven_ranked =
     [example_seven_scored ! 6, example_seven_scored ! 5]"
    by code_simp
  show ?thesis
    using sp top ro sr ne f1 f2 by blast
qed

subsection \<open>Records with a missing field\<close>

lemma scoring_pass_prints:
  "ev \<in> set (fst (scoring_pass libm_sin xs)) \<Longrightarrow> \<exists>m. ev = Print m"
  by (induction xs arbitrary: ev)
    (auto split: sum.splits exn.splits prod.splits)

lemma load_prints:
  "ev \<in> set (fst (load_validated_data r)) \<Longrightarrow> \<exists>m. ev = Print m"
  by (cases r) auto

lemma ranked_output_prints:
  assumes "ev \<in> set (fst (ranked_output libm_sin d))"
  shows "\<exists>m. ev = Print m"
proof (cases "py_iter d")
  case (Inl e)
  with assms show ?thesis by (simp add: ranked_output_def)
next
  case (Inr xs)
  obtain evs r where sp: "scoring_pass libm_sin xs = (evs, r)"
    by (cases "scoring_pass libm_sin xs") auto
  with assms Inr have "ev \<in> set evs"
    by (auto simp: ranked_output_def split: sum.splits)
  then show ?thesis
    using scoring_pass_prints [of ev libm_sin xs] sp by simp
qed

lemma map_exn_fails:
  "x \<in> set xs \<Longrightarrow> g x = Inl e \<Longrightarrow> \<exists>e'. map_exn g xs = Inl e'"
proof (induction xs)
  case Nil
  then show ?case by simp
next
  case (Cons y ys)
  show ?case
  proof (cases "g y")
    case (Inl a)
    then show ?thesis by simp
  next
    case (Inr b)
    with Cons have "x \<in> set ys" by auto
    with Cons obtain e' where "map_exn g ys = Inl e'" by blast
    with Inr show ?thesis by simp
  qed
qed

lemma ranking_key_needs_fields:
  assumes "k \<in> {''rating'', ''distance_from_me'', ''restaurant_name''}"
    and "py_getitem x k = Inl e"
  shows "\<exists>e'. ranking_key x = Inl e'"
proof (cases "ranking_key x")
  case (Inl a)
  then show ?thesis by blast
next
  case (Inr key)
  then have "\<exists>v. py_getitem x ''rating'' = Inr v" "\<exists>v. py_getitem x ''distance_from_me'' = Inr v"
    "\<exists>v. py_getitem x ''restaurant_name'' = Inr v"
    by (auto simp: ranking_key_def seq_eq_Inr)
  with assms show ?thesis by auto
qed

lemma missing_field_aborts:
  assumes "k \<in> {''rating'', ''distance_from_me'', ''restaurant_name''}"
    and "x \<in> set entries" and "py_getitem x k = Inl e"
  shows "\<exists>e'. snd (ranked_output libm_sin (PList entries)) = Inl e'"
proof -
  obtain evs r where sp: "scoring_pass libm_sin entries = (evs, r)"
    by (cases "scoring_pass libm_sin entries") auto
  show ?thesis
  proof (cases r)
    case (Inl a)
    with sp show ?thesis by (simp add: ranked_output_def)
  next
    case (Inr scored)
    with sp have "list_all2 (scored_from libm_sin) entries scored"
      by (intro scoring_pass_frame [of libm_sin entries evs]) simp
    with assms(2) obtain y where y: "y \<in> set scored" "scored_from libm_sin x y"
      by (metis in_set_conv_nth list_all2_conv_all_nth)
    have "k \<noteq> ''score''" using assms(1) by auto
    with y(2) assms(3) have "py_getitem y k = Inl e"
      by (simp add: scored_from_def)
    from ranking_key_needs_fields [OF assms(1) this] obtain e1 where "ranking_key y = Inl e1"
      by blast
    then have "seq (ranking_key y) (\<lambda>key. Inr (key, y)) = Inl e1" by simp
    from map_exn_fails [of y scored "\<lambda>x. seq (ranking_key x) (\<lambda>key. Inr (key, x))" e1, OF y(1) this]
    obtain e2 where
      "map_exn (\<lambda>x. seq (ranking_key x) (\<lambda>key. Inr (key, x))) scored = Inl e2" by blast
    then have "top_10_results scored = Inl e2"
      by (simp add: top_10_results_def py_sorted_def)
    with sp Inr show ?thesis by (simp add: ranked_output_def)
  qed
qed

text \<open>A record without \<open>rating\<close>, \<open>distance_from_me\<close> or \<open>restaurant_name\<close> is not
  skipped: it stays in the list, the key function of the sort raises on it, and the
  run ends there with nothing written.\<close>

lemma missing_field_aborts_main:
  assumes "k \<in> {''rating'', ''distance_from_me'', ''restaurant_name''}"
    and "input_file w = Loaded (PList entries)"
    and "x \<in> set entries" and "py_getitem x k = Inl e"
  shows "\<exists>e'. snd (main libm_sin w) = Some e'" "WriteFile f out \<notin> set (fst (main libm_sin w))"
proof -
  from missing_field_aborts [OF assms(1,3,4)] obtain e' where
    e': "snd (ranked_output libm_sin (PList entries)) = Inl e'" by blast
  then obtain evs where ro: "ranked_output libm_sin (PList entries) = (evs, Inl e')"
    by (cases "ranked_output libm_sin (PList entries)") auto
  have ne: "entries \<noteq> []" using assms(3) by auto
  have m: "main libm_sin w = (evs, Some e')"
    using assms(2) ro ne by (simp add: main_def)
  then show "\<exists>e'. snd (main libm_sin w) = Some e'" by simp
  have "\<And>ev. ev \<in> set evs \<Longrightarrow> \<exists>m. ev = Print m"
    using ranked_output_prints [of _ libm_sin "PList entries"] ro by simp
  then show "WriteFile f out \<notin> set (fst (main libm_sin w))"
    using m by auto
qed

text \<open>C2 fails on the code. With the input
  \<open>[{"id": 1, "restaurant_name": "A", "distance_from_me": 2},
    {"id": 2, "restaurant_name": "B", "rating": 4.5, "distance_from_me": 1.3}]\<close>
  the run prints that \<open>rating\<close> is missing and then ends with \<open>KeyError: 'score'\<close>:
  the second record is neither ranked nor written.\<close>

theorem missing_rating_example:
  "main sin_sample (example_env (Loaded (PList [example_no_rating, example_b])) NoReply) =
     ([Print (MissingField ''rating'' example_no_rating)], Some (KeyError ''score''))"
  by code_simp

subsection \<open>The token and the submission\<close>

lemma write_output_file_no_post:
  "HttpPost u t b \<notin> set (write_output_file ok out f)"
  by (simp add: write_output_file_def)

lemma get_token_no_post:
  "HttpPost u t b \<notin> set (fst (get_authorization_token reply url))"
  by (auto simp: get_authorization_token_def Let_def
      split: http_reply.splits option.splits sum.splits)

text \<open>When \<open>get_authorization_token\<close> returns \<open>None\<close>: no reply, a 4xx or 5xx status,
  a body that is not JSON, or a body without \<open>data\<close> or without the token.\<close>

lemma token_none_cases:
  "snd (get_authorization_token NoReply url) = Inr PNone"
  "error_status code \<Longrightarrow> snd (get_authorization_token (Reply code body) url) = Inr PNone"
  "snd (get_authorization_token (Reply code None) url) = Inr PNone"
  "map_of kvs ''data'' = Some (PDict d) \<Longrightarrow> map_of d ''authorizationToken'' = None \<Longrightarrow>
     snd (get_authorization_token (Reply code (Some (PDict kvs))) url) = Inr PNone"
  "map_of kvs ''data'' = None \<Longrightarrow>
     snd (get_authorization_token (Reply code (Some (PDict kvs))) url) = Inr PNone"
  by (simp_all add: get_authorization_token_def Let_def)

text \<open>C8. When \<open>get_authorization_token\<close> returns \<open>None\<close>, the run contains no POST at
  all, and a run that got as far as the token request ends normally.\<close>

theorem no_token_no_submission:
  assumes "snd (get_authorization_token (register_reply w) API_URL) = Inr PNone"
  shows "(\<forall>u t b. HttpPost u t b \<notin> set (fst (main libm_sin w))) \<and>
         (HttpGet (API_URL @ REGISTER_ENDPOINT) \<in> set (fst (main libm_sin w)) \<longrightarrow>
            snd (main libm_sin w) = None)"
proof -
  obtain evs3 where tok: "get_authorization_token (register_reply w) API_URL = (evs3, Inr PNone)"
    using assms by (cases "get_authorization_token (register_reply w) API_URL") auto
  have no3: "HttpPost u t b \<notin> set evs3" for u t b
    using get_token_no_post [of u t b "register_reply w" API_URL] tok by simp
  obtain evs0 r0 where ld: "load_validated_data (input_file w) = (evs0, r0)"
    by (cases "load_validated_data (input_file w)") auto
  have p0: "ev \<in> set evs0 \<Longrightarrow> \<exists>m. ev = Print m" for ev
    using load_prints [of ev "input_file w"] ld by simp
  show ?thesis
  proof (cases r0)
    case (Inl e)
    then show ?thesis using ld p0 by (auto simp: main_def)
  next
    case (Inr data)
    show ?thesis
    proof (cases "py_truthy data")
      case False
      then show ?thesis using ld Inr p0 by (auto simp: main_def)
    next
      case True
      obtain evs1 r1 where ro: "ranked_output libm_sin data = (evs1, r1)"
        by (cases "ranked_output libm_sin data") auto
      have p1: "ev \<in> set evs1 \<Longrightarrow> \<exists>m. ev = Print m" for ev
        using ranked_output_prints [of ev libm_sin data] ro by simp
      show ?thesis
      proof (cases r1)
        case (Inl e)
        then show ?thesis using ld \<open>r0 = Inr data\<close> True ro p0 p1
          by (auto simp: main_def)
      next
        case (Inr out)
        then show ?thesis
          using ld \<open>r0 = Inr data\<close> True ro p0 p1 tok no3
            write_output_file_no_post [of _ _ _ "output_writable w" out OUTPUT_FILE]
          by (auto simp: main_def Let_def)
      qed
    qed
  qed
qed

theorem no_token_no_submission_witness:
  "snd (get_authorization_token
         (register_reply (example_env (Loaded (PList [example_a, example_b])) (Reply 503 None)))
         API_URL) = Inr PNone \<and>
   (\<forall>u t b. HttpPost u t b \<notin>
      set (fst (main sin_sample (example_env (Loaded (PList [example_a, example_b])) (Reply 503 None))))) \<and>
   HttpGet (API_URL @ REGISTER_ENDPOINT) \<in>
      set (fst (main sin_sample (example_env (Loaded (PList [example_a, example_b])) (Reply 503 None)))) \<and>
   snd (main sin_sample (example_env (Loaded (PList [example_a, example_b])) (Reply 503 None))) = None"
proof -
  have h: "snd (get_authorization_token
         (register_reply (example_env (Loaded (PList [example_a, example_b])) (Reply 503 None)))
         API_URL) = Inr PNone"
    by (simp add: example_env_def token_none_cases error_status_def)
  have g: "HttpGet (API_URL @ REGISTER_ENDPOINT) \<in>
      set (fst (main sin_sample (example_env (Loaded (PList [example_a, example_b])) (Reply 503 None))))"
    by code_simp
  show ?thesis
    using no_token_no_submission [OF h, of sin_sample] h g by blast
qed

end
